theory Spec2Isabelle
  imports Complex_Main "HOL-Library.AList"
begin

section \<open>Data model\<close>

text \<open>
  A node is a JavaScript object with an integer \<open>id\<close> and, depending on the topology,
  the optional fields \<open>row\<close>, \<open>col\<close> (mesh, torus) and \<open>binary\<close> (hypercube); an absent
  field is \<open>None\<close>. An edge is \<open>{source, target}\<close>; a graph is \<open>{nodes, edges}\<close>.
  Node ids are the loop counters of the generators, hence natural numbers; the parameters
  handed to a generator are arbitrary integers.
\<close>

record node =
  node_id :: nat
  row :: "nat option"
  col :: "nat option"
  binary :: "string option"

record edge =
  source :: nat
  target :: nat

record graph =
  nodes :: "node list"
  edges :: "edge list"

text \<open>What the generators print with \<open>console.warn\<close>: the message with its arguments.\<close>

datatype warning =
  SkipAdjusted int int int
  | DimensionTooLarge int

definition ring_node :: "nat \<Rightarrow> node" where
  "ring_node i = \<lparr>node_id = i, row = None, col = None, binary = None\<rparr>"

definition grid_node :: "nat \<Rightarrow> nat \<Rightarrow> nat \<Rightarrow> node" where
  "grid_node i r c = \<lparr>node_id = i, row = Some r, col = Some c, binary = None\<rparr>"

definition cube_node :: "nat \<Rightarrow> string \<Rightarrow> node" where
  "cube_node i b = \<lparr>node_id = i, row = None, col = None, binary = Some b\<rparr>"

section \<open>Edge keys\<close>

text \<open>
  The generators deduplicate edges through a \<open>Set\<close> of strings \<open>`${min}-${max}`\<close>. The
  string of a non-negative integer is its decimal numeral without leading zeros.
\<close>

definition digit_char :: "nat \<Rightarrow> char" where
  "digit_char k = char_of (48 + k)"

fun toString :: "nat \<Rightarrow> string" where
  "toString n = (if n < 10 then [digit_char n] else toString (n div 10) @ [digit_char (n mod 10)])"

declare toString.simps [simp del]

definition edgeKey :: "nat \<Rightarrow> nat \<Rightarrow> string" where
  "edgeKey mn mx = toString mn @ ''-'' @ toString mx"

text \<open>
  The helper \<open>addEdge(u, v)\<close> of \<open>generateRing\<close> and \<open>generateTorus\<close>, on the pair of the
  \<open>edges\<close> array and the \<open>addedEdges\<close> set (a JavaScript \<open>Set\<close> keeps its elements in
  insertion order: a list without repetitions).
\<close>

definition addEdge :: "nat \<Rightarrow> nat \<Rightarrow> edge list \<times> string list \<Rightarrow> edge list \<times> string list" where
  "addEdge u v st =
     (let mn = min u v; mx = max u v; k = edgeKey mn mx
      in if k \<notin> set (snd st) \<and> mn \<noteq> mx
         then (fst st @ [\<lparr>source = u, target = v\<rparr>], snd st @ [k])
         else st)"

section \<open>Topology generators\<close>

subsection \<open>Ring with chords\<close>

definition ring_base_step :: "nat \<Rightarrow> edge list \<times> string list \<Rightarrow> nat \<Rightarrow> edge list \<times> string list" where
  "ring_base_step n st i = addEdge i ((i + 1) mod n) st"

definition ring_skip_step :: "nat \<Rightarrow> nat \<Rightarrow> edge list \<times> string list \<Rightarrow> nat \<Rightarrow> edge list \<times> string list" where
  "ring_skip_step n validSkip st i = addEdge i ((i + validSkip) mod n) st"

definition generateRing :: "int \<Rightarrow> int \<Rightarrow> warning list \<times> graph" where
  "generateRing n skip =
     (if n < 1 then ([], \<lparr>nodes = [], edges = []\<rparr>)
      else
        let maxSkip = max 1 (n div 2);
            validSkip = max 1 (min skip maxSkip);
            warns = (if skip \<noteq> validSkip then [SkipAdjusted skip validSkip n] else []);
            ns = map ring_node [0..<nat n]
        in if n \<le> 1 then (warns, \<lparr>nodes = ns, edges = []\<rparr>)
           else
             let st1 = foldl (ring_base_step (nat n)) ([], []) [0..<nat n];
                 st2 = (if validSkip > 1 \<and> n \<ge> 3
                        then foldl (ring_skip_step (nat n) (nat validSkip)) st1 [0..<nat n]
                        else st1)
             in (warns, \<lparr>nodes = ns, edges = fst st2\<rparr>))"

subsection \<open>Torus\<close>

definition nodeAt :: "nat \<Rightarrow> nat \<Rightarrow> nat \<Rightarrow> nat \<Rightarrow> nat" where
  "nodeAt rows cols r c = ((r + rows) mod rows) * cols + ((c + cols) mod cols)"

definition torus_step :: "nat \<Rightarrow> nat \<Rightarrow> nat \<Rightarrow> edge list \<times> string list \<Rightarrow> nat \<Rightarrow> edge list \<times> string list" where
  "torus_step rows cols r st c =
     (let currentNodeId = nodeAt rows cols r c;
          st1 = (if rows > 1 then addEdge currentNodeId (nodeAt rows cols (r + 1) c) st else st)
      in if cols > 1 then addEdge currentNodeId (nodeAt rows cols r (c + 1)) st1 else st1)"

definition torus_row :: "nat \<Rightarrow> nat \<Rightarrow> edge list \<times> string list \<Rightarrow> nat \<Rightarrow> edge list \<times> string list" where
  "torus_row rows cols st r = foldl (torus_step rows cols r) st [0..<cols]"

definition torus_node_row :: "nat \<Rightarrow> nat \<Rightarrow> node list" where
  "torus_node_row cols r = map (\<lambda>c. grid_node (r * cols + c) r c) [0..<cols]"

definition generateTorus :: "int \<Rightarrow> int \<Rightarrow> graph" where
  "generateTorus rows cols =
     (if rows < 1 \<or> cols < 1 then \<lparr>nodes = [], edges = []\<rparr>
      else \<lparr>nodes = concat (map (torus_node_row (nat cols)) [0..<nat rows]),
             edges = fst (foldl (torus_row (nat rows) (nat cols)) ([], []) [0..<nat rows])\<rparr>)"

text \<open>The degree of a node: the number of edge ends at it.\<close>

definition degree :: "graph \<Rightarrow> nat \<Rightarrow> nat" where
  "degree g v = length (filter (\<lambda>e. source e = v) (edges g)) + length (filter (\<lambda>e. target e = v) (edges g))"

section \<open>Adjacency mapping and breadth-first search\<close>

text \<open>
  A JavaScript \<open>Map\<close> is an association list in insertion order with distinct keys:
  \<open>m.get(k)\<close> is \<open>map_of m k\<close> (\<open>None\<close> for \<open>undefined\<close>), \<open>m.set(k, v)\<close> is
  \<open>AList.update k v m\<close> (the value is replaced in place, a new key is appended),
  \<open>m.size\<close> is \<open>length m\<close> and \<open>m.forEach\<close> runs over the list.

  A JavaScript number that holds a distance is a natural number, \<open>Infinity\<close> or \<open>NaN\<close>.
\<close>

datatype 'a jsnum = Fin 'a | Infinity | NaN

type_synonym adjacency = "(nat \<times> nat list) list"

text \<open>
  The adjacency list as \<open>generateGraphAndMetrics\<close> builds it (and \<open>calculateGraphMetrics\<close>
  in the variant that takes the graph only): one empty array per node, then both
  directions of each edge; \<open>adj.get(k)?.push(x)\<close> does nothing when \<open>k\<close> is not a key.
\<close>

definition adj_init :: "adjacency \<Rightarrow> node \<Rightarrow> adjacency" where
  "adj_init adj nd = AList.update (node_id nd) [] adj"

definition adj_push :: "nat \<Rightarrow> nat \<Rightarrow> adjacency \<Rightarrow> adjacency" where
  "adj_push k x adj = (case map_of adj k of None \<Rightarrow> adj | Some xs \<Rightarrow> AList.update k (xs @ [x]) adj)"

definition adj_edge :: "adjacency \<Rightarrow> edge \<Rightarrow> adjacency" where
  "adj_edge adj e = adj_push (target e) (source e) (adj_push (source e) (target e) adj)"

definition buildAdjacency :: "graph \<Rightarrow> adjacency" where
  "buildAdjacency g = foldl adj_edge (foldl adj_init [] (nodes g)) (edges g)"

text \<open>\<open>adj.get(u) || []\<close>: an array, even an empty one, is truthy.\<close>

definition neighbors :: "adjacency \<Rightarrow> nat \<Rightarrow> nat list" where
  "neighbors adj u = (case map_of adj u of None \<Rightarrow> [] | Some ns \<Rightarrow> ns)"

record bfs_state =
  distances :: "(nat \<times> nat jsnum) list"
  predecessors :: "(nat \<times> nat option) list"
  queue :: "nat list"
  head :: nat

text \<open>\<open>distances.get(u) + 1\<close>; \<open>undefined + 1\<close> is \<open>NaN\<close>.\<close>

fun plus_one :: "nat jsnum option \<Rightarrow> nat jsnum" where
  "plus_one (Some (Fin d)) = Fin (d + 1)"
| "plus_one (Some Infinity) = Infinity"
| "plus_one (Some NaN) = NaN"
| "plus_one None = NaN"

definition bfs_init :: "(nat \<times> nat jsnum) list \<times> (nat \<times> nat option) list \<Rightarrow> node
    \<Rightarrow> (nat \<times> nat jsnum) list \<times> (nat \<times> nat option) list" where
  "bfs_init dp nd = (AList.update (node_id nd) Infinity (fst dp), AList.update (node_id nd) None (snd dp))"

text \<open>The body of \<open>for (const v of neighbors)\<close>.\<close>

definition bfs_visit :: "nat \<Rightarrow> bfs_state \<Rightarrow> nat \<Rightarrow> bfs_state" where
  "bfs_visit u st v =
     (if map_of (distances st) v = Some Infinity
      then st\<lparr>distances := AList.update v (plus_one (map_of (distances st) u)) (distances st),
              predecessors := AList.update v (Some u) (predecessors st),
              queue := queue st @ [v]\<rparr>
      else st)"

text \<open>The body of \<open>while (head < queue.length)\<close>; it is only run under that guard.\<close>

definition bfs_expand :: "adjacency \<Rightarrow> bfs_state \<Rightarrow> bfs_state" where
  "bfs_expand adj st =
     (let u = queue st ! head st
      in foldl (bfs_visit u) (st\<lparr>head := head st + 1\<rparr>) (neighbors adj u))"

text \<open>
  The loop itself. On an arbitrary state it need not end (a queued node whose distance is
  \<open>Infinity\<close> and that is its own neighbour is queued again forever), so the result is an
  option and \<open>None\<close> is "does not return".
\<close>

partial_function (option) bfs_loop :: "adjacency \<Rightarrow> bfs_state \<Rightarrow> bfs_state option" where
  "bfs_loop adj st =
     (if head st < length (queue st) then bfs_loop adj (bfs_expand adj st) else Some st)"

declare bfs_loop.simps [code]

definition bfs_start :: "nat \<Rightarrow> node list \<Rightarrow> bfs_state" where
  "bfs_start startNodeId allNodes =
     (let dp = foldl bfs_init ([], []) allNodes
      in \<lparr>distances = AList.update startNodeId (Fin 0) (fst dp), predecessors = snd dp,
          queue = [startNodeId], head = 0\<rparr>)"

definition bfs :: "nat \<Rightarrow> adjacency \<Rightarrow> node list
    \<Rightarrow> ((nat \<times> nat jsnum) list \<times> (nat \<times> nat option) list) option" where
  "bfs startNodeId adj allNodes =
     (case bfs_loop adj (bfs_start startNodeId allNodes) of
        None \<Rightarrow> None
      | Some st \<Rightarrow> Some (distances st, predecessors st))"

section \<open>Path reconstruction\<close>

text \<open>
  The loop of \<open>reconstructPath\<close> on \<open>(path, current, safety)\<close>; \<open>None\<close> is the
  \<open>return null\<close> inside the loop (\<open>prev\<close> is \<open>null\<close> or \<open>undefined\<close>).
\<close>

function reconstructPath_loop :: "nat \<Rightarrow> (nat \<times> nat option) list \<Rightarrow> nat
    \<Rightarrow> nat list \<times> nat \<times> nat \<Rightarrow> (nat list \<times> nat \<times> nat) option" where
  "reconstructPath_loop src preds maxPathLength (path, current, safety) =
     (if current \<noteq> src \<and> safety < maxPathLength
      then (case map_of preds current of
              None \<Rightarrow> None
            | Some None \<Rightarrow> None
            | Some (Some prev) \<Rightarrow>
                reconstructPath_loop src preds maxPathLength (prev # path, prev, safety + 1))
      else Some (path, current, safety))"
  by pat_completeness auto
termination
  by (relation "measure (\<lambda>(src, preds, maxPathLength, path, current, safety). maxPathLength - safety)") auto

declare reconstructPath_loop.simps [simp del]

definition reconstructPath :: "nat \<Rightarrow> nat \<Rightarrow> (nat \<times> nat option) list \<Rightarrow> nat list option" where
  "reconstructPath src tgt preds =
     (case reconstructPath_loop src preds (length preds) ([tgt], tgt, 0) of
        None \<Rightarrow> None
      | Some (path, current, safety) \<Rightarrow> if current \<noteq> src then None else Some path)"

section \<open>Mesh and hypercube generators\<close>

subsection \<open>Mesh\<close>

text \<open>
  \<open>generateMesh\<close> keeps a counter and a grid \<open>nodeGrid[r][c]\<close> of the ids handed out so far; the
  grid, an array of arrays, is a map from the row index to a map from the column index. The
  left and upper neighbours are read from the grid. Reading a row that was never created
  throws in JavaScript, and an entry that was never written reads as \<open>undefined\<close>, which is
  not a node id: both end the model's run with \<open>None\<close>.
\<close>

record mesh_state =
  mesh_nodes :: "node list"
  mesh_edges :: "edge list"
  idCounter :: nat
  nodeGrid :: "nat \<Rightarrow> (nat \<Rightarrow> nat option) option"

definition grid_read :: "(nat \<Rightarrow> (nat \<Rightarrow> nat option) option) \<Rightarrow> nat \<Rightarrow> nat \<Rightarrow> nat option" where
  "grid_read ng r c = (case ng r of None \<Rightarrow> None | Some cells \<Rightarrow> cells c)"

fun mesh_push_edge :: "nat \<Rightarrow> nat option \<Rightarrow> mesh_state \<Rightarrow> mesh_state option" where
  "mesh_push_edge src None st = None"
| "mesh_push_edge src (Some t) st = Some (st\<lparr>mesh_edges := mesh_edges st @ [\<lparr>source = src, target = t\<rparr>]\<rparr>)"

text \<open>The body of the inner loop, for the cell in row \<open>r\<close> and column \<open>c\<close>.\<close>

definition mesh_cell :: "nat \<Rightarrow> mesh_state option \<Rightarrow> nat \<Rightarrow> mesh_state option" where
  "mesh_cell r sto c =
     (case sto of
        None \<Rightarrow> None
      | Some st \<Rightarrow>
          (case nodeGrid st r of
             None \<Rightarrow> None
           | Some cells \<Rightarrow>
               (let nodeId = idCounter st;
                    st1 = st\<lparr>idCounter := nodeId + 1,
                             mesh_nodes := mesh_nodes st @ [grid_node nodeId r c],
                             nodeGrid := (nodeGrid st)(r \<mapsto> cells(c \<mapsto> nodeId))\<rparr>;
                    st2 = (if c > 0 then mesh_push_edge nodeId (grid_read (nodeGrid st1) r (c - 1)) st1
                           else Some st1)
                in case st2 of
                     None \<Rightarrow> None
                   | Some st3 \<Rightarrow>
                       if r > 0 then mesh_push_edge nodeId (grid_read (nodeGrid st3) (r - 1) c) st3
                       else Some st3)))"

text \<open>The body of the outer loop: \<open>nodeGrid[r] = []\<close>, then the cells of row \<open>r\<close>.\<close>

definition mesh_new_row :: "nat \<Rightarrow> mesh_state \<Rightarrow> mesh_state" where
  "mesh_new_row r st = st\<lparr>nodeGrid := (nodeGrid st)(r \<mapsto> Map.empty)\<rparr>"

definition mesh_row :: "nat \<Rightarrow> mesh_state option \<Rightarrow> nat \<Rightarrow> mesh_state option" where
  "mesh_row cols sto r = foldl (mesh_cell r) (map_option (mesh_new_row r) sto) [0..<cols]"

definition mesh_start :: mesh_state where
  "mesh_start = \<lparr>mesh_nodes = [], mesh_edges = [], idCounter = 0, nodeGrid = Map.empty\<rparr>"

definition generateMesh :: "int \<Rightarrow> int \<Rightarrow> graph option" where
  "generateMesh rows cols =
     (if rows < 1 \<or> cols < 1 then Some \<lparr>nodes = [], edges = []\<rparr>
      else (case foldl (mesh_row (nat cols)) (Some mesh_start) [0..<nat rows] of
              None \<Rightarrow> None
            | Some st \<Rightarrow> Some \<lparr>nodes = mesh_nodes st, edges = mesh_edges st\<rparr>))"

subsection \<open>Hypercube\<close>

text \<open>\<open>i.toString(2)\<close> and \<open>s.padStart(len, '0')\<close>.\<close>

fun toString2 :: "nat \<Rightarrow> string" where
  "toString2 n = (if n < 2 then [digit_char n] else toString2 (n div 2) @ [digit_char (n mod 2)])"

declare toString2.simps [simp del]

definition padStart :: "nat \<Rightarrow> char \<Rightarrow> string \<Rightarrow> string" where
  "padStart len c s = replicate (len - length s) c @ s"

text \<open>
  The body of the loop over the bit positions \<open>j\<close>. \<open>i ^ (1 << j)\<close> works on 32-bit integers;
  here \<open>i < 1024\<close> and \<open>j < 10\<close>, so nothing is cut off. There is no test for \<open>min !== max\<close>
  in this generator.
\<close>

definition hypercube_edge :: "nat \<Rightarrow> edge list \<times> string list \<Rightarrow> nat \<Rightarrow> edge list \<times> string list" where
  "hypercube_edge i st j =
     (let neighborId = xor i (push_bit j 1);
          mn = min i neighborId; mx = max i neighborId; k = edgeKey mn mx
      in if k \<notin> set (snd st)
         then (fst st @ [\<lparr>source = i, target = neighborId\<rparr>], snd st @ [k])
         else st)"

definition hypercube_row :: "nat \<Rightarrow> edge list \<times> string list \<Rightarrow> nat \<Rightarrow> edge list \<times> string list" where
  "hypercube_row d st i = foldl (hypercube_edge i) st [0..<d]"

definition hypercube_node :: "nat \<Rightarrow> nat \<Rightarrow> node" where
  "hypercube_node d i = cube_node i (padStart d (CHR ''0'') (toString2 i))"

definition generateHypercube :: "int \<Rightarrow> warning list \<times> graph" where
  "generateHypercube d =
     (let d1 = (if d < 0 then 0 else d);
          warns = (if d1 > 10 then [DimensionTooLarge d1] else []);
          d2 = (if d1 > 10 then 10 else d1);
          n = 2 ^ nat d2;
          ns = map (hypercube_node (nat d2)) [0..<n];
          es = (if d2 > 0 then fst (foldl (hypercube_row (nat d2)) ([], []) [0..<n]) else [])
      in (warns, \<lparr>nodes = ns, edges = es\<rparr>))"

section \<open>Graph metrics\<close>

text \<open>
  The result of \<open>calculateGraphMetrics\<close>. \<open>diameter\<close> is a distance or \<open>Infinity\<close>;
  \<open>avgPathLength\<close> is a quotient rounded to three decimals or \<open>Infinity\<close>.
\<close>

record metrics =
  diameter :: "nat jsnum"
  avgPathLength :: "rat jsnum"
  isConnected :: bool

text \<open>
  \<open>parseFloat((s / c).toFixed(3))\<close> for two counts \<open>s\<close> and \<open>c\<close>. JavaScript divides on IEEE
  doubles, and \<open>toFixed(3)\<close> gives the multiple of \<open>1/1000\<close> nearest to that double, the larger
  one of two equally near. As long as \<open>s\<close> is below \<open>2^53 / 2000\<close>, the double is
  nearer to the exact quotient \<open>x\<close> than any tie \<open>(2 k + 1) / 2000\<close> other than \<open>x\<close> itself, and
  the result is the multiple of \<open>1/1000\<close> nearest to \<open>x\<close>. Only when \<open>x\<close> is a tie does the
  double decide: the result is the upper neighbour when the double is not below \<open>x\<close>, the
  lower one otherwise. That fact about the double is the parameter \<open>ties_up\<close>; the model
  computes in exact rational arithmetic.
\<close>

definition toFixed3 :: "(rat \<Rightarrow> bool) \<Rightarrow> rat \<Rightarrow> rat" where
  "toFixed3 ties_up x =
     (let y = x * 1000 + 1 / 2
      in if of_int \<lfloor>y\<rfloor> = y \<and> \<not> ties_up x
         then of_int (\<lfloor>y\<rfloor> - 1) / 1000
         else of_int \<lfloor>y\<rfloor> / 1000)"

text \<open>\<open>Math.max\<close> on two numbers.\<close>

fun js_max :: "nat jsnum \<Rightarrow> nat jsnum \<Rightarrow> nat jsnum" where
  "js_max NaN y = NaN"
| "js_max x NaN = NaN"
| "js_max Infinity y = Infinity"
| "js_max x Infinity = Infinity"
| "js_max (Fin a) (Fin b) = Fin (max a b)"

text \<open>
  The local variables of \<open>calculateGraphMetrics\<close>; \<open>connectedFlag\<close> is its variable
  \<open>isConnected\<close>. \<open>currentMax\<close> and \<open>reachableCount\<close> are reset for each source.
\<close>

record metrics_state =
  maxDistance :: "nat jsnum"
  totalPathLengthSum :: nat
  reachablePairsCount :: nat
  connectedFlag :: bool
  nodesInFirstComponent :: nat
  currentMax :: "nat jsnum"
  reachableCount :: nat

text \<open>
  The callback of \<open>distances.forEach\<close>, by the kind of \<open>dist\<close>. \<open>Infinity\<close>: nothing happens.
  A number \<open>d\<close>: the node counts as reachable, \<open>d\<close> is added to the sum and counted as a pair
  when \<open>d > 0\<close>, and \<open>currentMax\<close> becomes the maximum. \<open>NaN\<close>: \<open>NaN !== Infinity\<close> holds,
  \<open>NaN > 0\<close> does not, and \<open>Math.max(currentMax, NaN)\<close> is \<open>NaN\<close>.
\<close>

definition metrics_dist :: "metrics_state \<Rightarrow> nat \<times> nat jsnum \<Rightarrow> metrics_state" where
  "metrics_dist ms kv =
     (case snd kv of
        Infinity \<Rightarrow> ms
      | Fin d \<Rightarrow>
          (let ms1 = ms\<lparr>reachableCount := reachableCount ms + 1\<rparr>;
               ms2 = (if d > 0
                      then ms1\<lparr>totalPathLengthSum := totalPathLengthSum ms1 + d,
                               reachablePairsCount := reachablePairsCount ms1 + 1\<rparr>
                      else ms1)
           in ms2\<lparr>currentMax := js_max (currentMax ms2) (Fin d)\<rparr>)
      | NaN \<Rightarrow> ms\<lparr>reachableCount := reachableCount ms + 1, currentMax := js_max (currentMax ms) NaN\<rparr>)"

text \<open>The connectivity check after the scan of the distances of source number \<open>i\<close>.\<close>

definition metrics_check :: "nat \<Rightarrow> nat \<Rightarrow> metrics_state \<Rightarrow> metrics_state" where
  "metrics_check n i ms =
     (if i = 0
      then (let ms1 = ms\<lparr>nodesInFirstComponent := reachableCount ms\<rparr>
            in if nodesInFirstComponent ms1 < n then ms1\<lparr>connectedFlag := False\<rparr> else ms1)
      else if connectedFlag ms \<and> reachableCount ms \<noteq> nodesInFirstComponent ms
           then ms\<lparr>connectedFlag := False\<rparr>
           else ms)"

text \<open>
  One round of \<open>for (let i = 0; i < n; i++)\<close>; \<open>None\<close> when \<open>bfs\<close> does not return. The index
  is below \<open>n = graph.nodes.length\<close>.
\<close>

definition metrics_source :: "graph \<Rightarrow> adjacency \<Rightarrow> metrics_state \<Rightarrow> nat \<Rightarrow> metrics_state option" where
  "metrics_source g adj ms i =
     (case bfs (node_id (nodes g ! i)) adj (nodes g) of
        None \<Rightarrow> None
      | Some dp \<Rightarrow>
          (let ms1 = foldl metrics_dist (ms\<lparr>currentMax := Fin 0, reachableCount := 0\<rparr>) (fst dp);
               ms2 = metrics_check (length (nodes g)) i ms1
           in Some (ms2\<lparr>maxDistance := js_max (maxDistance ms2) (currentMax ms2)\<rparr>)))"

fun metrics_loop :: "graph \<Rightarrow> adjacency \<Rightarrow> metrics_state \<Rightarrow> nat list \<Rightarrow> metrics_state option" where
  "metrics_loop g adj ms [] = Some ms"
| "metrics_loop g adj ms (i # is) =
     (case metrics_source g adj ms i of
        None \<Rightarrow> None
      | Some ms' \<Rightarrow> metrics_loop g adj ms' is)"

definition metrics_start :: metrics_state where
  "metrics_start = \<lparr>maxDistance = Fin 0, totalPathLengthSum = 0, reachablePairsCount = 0,
     connectedFlag = True, nodesInFirstComponent = 0, currentMax = Fin 0, reachableCount = 0\<rparr>"

definition metrics_result :: "(rat \<Rightarrow> bool) \<Rightarrow> metrics_state \<Rightarrow> metrics" where
  "metrics_result ties_up ms =
     \<lparr>diameter = (if connectedFlag ms then maxDistance ms else Infinity),
      avgPathLength =
        (if connectedFlag ms \<and> reachablePairsCount ms > 0
         then Fin (toFixed3 ties_up (of_nat (totalPathLengthSum ms) / of_nat (reachablePairsCount ms)))
         else Infinity),
      isConnected = connectedFlag ms\<rparr>"

definition calculateGraphMetrics :: "(rat \<Rightarrow> bool) \<Rightarrow> graph \<Rightarrow> adjacency \<Rightarrow> metrics option" where
  "calculateGraphMetrics ties_up g adj =
     (if length (nodes g) \<le> 1
      then Some \<lparr>diameter = Fin 0, avgPathLength = Fin 0, isConnected = True\<rparr>
      else (case metrics_loop g adj metrics_start [0..<length (nodes g)] of
              None \<Rightarrow> None
            | Some ms \<Rightarrow> Some (metrics_result ties_up ms)))"

section \<open>Specification vocabulary\<close>

definition adj_edges :: "adjacency \<Rightarrow> (nat \<times> nat) set" where
  "adj_edges adj = {(u, v). v \<in> set (neighbors adj u)}"

definition dval :: "(nat \<times> nat jsnum) list \<Rightarrow> nat \<Rightarrow> nat" where
  "dval D x = (case map_of D x of Some (Fin d) \<Rightarrow> d | _ \<Rightarrow> 0)"

definition bfs_inv :: "nat \<Rightarrow> adjacency \<Rightarrow> bfs_state \<Rightarrow> bool" where
  "bfs_inv s adj st \<longleftrightarrow>
     head st \<le> length (queue st)
   \<and> (\<forall>x. (\<exists>d. map_of (distances st) x = Some (Fin d)) \<longleftrightarrow> x \<in> set (queue st))
   \<and> (\<forall>x. map_of (distances st) x \<noteq> Some NaN)
   \<and> (\<forall>x d. map_of (distances st) x = Some (Fin d) \<longrightarrow> (s, x) \<in> adj_edges adj ^^ d)
   \<and> map_of (distances st) s = Some (Fin 0)
   \<and> sorted (map (dval (distances st)) (drop (head st) (queue st)))
   \<and> (head st < length (queue st) \<longrightarrow>
        (\<forall>x\<in>set (queue st). dval (distances st) x \<le> dval (distances st) (queue st ! head st) + 1))
   \<and> (\<forall>i<head st. \<forall>v\<in>set (neighbors adj (queue st ! i)). v \<in> fst ` set (distances st) \<longrightarrow>
        (\<exists>d. map_of (distances st) v = Some (Fin d) \<and> d \<le> dval (distances st) (queue st ! i) + 1))
   \<and> (\<forall>v p. map_of (predecessors st) v = Some (Some p) \<longrightarrow>
        (p, v) \<in> adj_edges adj
        \<and> (\<exists>d. map_of (distances st) p = Some (Fin d) \<and> map_of (distances st) v = Some (Fin (d + 1))))
   \<and> (\<forall>v d. map_of (distances st) v = Some (Fin d) \<and> v \<noteq> s \<longrightarrow>
        (\<exists>p. map_of (predecessors st) v = Some (Some p)))
   \<and> (\<forall>v. map_of (distances st) v = Some Infinity \<longrightarrow> map_of (predecessors st) v = Some None)"

definition inf_nodes :: "bfs_state \<Rightarrow> nat set" where
  "inf_nodes st = {x. map_of (distances st) x = Some Infinity}"

definition node_ids :: "node list \<Rightarrow> nat set" where
  "node_ids ns = node_id ` set ns"

definition shortest_path_length :: "(nat \<times> nat) set \<Rightarrow> nat \<Rightarrow> nat \<Rightarrow> nat \<Rightarrow> bool" where
  "shortest_path_length E u v d \<longleftrightarrow> (u, v) \<in> E ^^ d \<and> (\<forall>k<d. (u, v) \<notin> E ^^ k)"

definition reachable :: "(nat \<times> nat) set \<Rightarrow> nat \<Rightarrow> nat \<Rightarrow> bool" where
  "reachable E u v \<longleftrightarrow> (u, v) \<in> E\<^sup>*"

text \<open>A node list each of whose elements is the predecessor of the next one.\<close>

fun follows_predecessors :: "(nat \<times> nat option) list \<Rightarrow> nat list \<Rightarrow> bool" where
  "follows_predecessors P (x # y # xs) = (map_of P y = Some (Some x) \<and> follows_predecessors P (y # xs))"
| "follows_predecessors P xs = True"

text \<open>A node list whose consecutive elements are joined by an edge.\<close>

fun is_path :: "(nat \<times> nat) set \<Rightarrow> nat list \<Rightarrow> bool" where
  "is_path E (x # y # xs) = ((x, y) \<in> E \<and> is_path E (y # xs))"
| "is_path E xs = True"

text \<open>A graph is connected when every node is reachable from every node.\<close>

definition connected_graph :: "graph \<Rightarrow> bool" where
  "connected_graph g \<longleftrightarrow>
     (\<forall>a\<in>node_ids (nodes g). \<forall>b\<in>node_ids (nodes g). reachable (adj_edges (buildAdjacency g)) a b)"

text \<open>The shortest-path distance: the least number of edges of a path.\<close>

definition distance :: "(nat \<times> nat) set \<Rightarrow> nat \<Rightarrow> nat \<Rightarrow> nat" where
  "distance E u v = (LEAST d. (u, v) \<in> E ^^ d)"

text \<open>The finite values of a distance map, in the order of its keys.\<close>

fun fin_vals :: "(nat \<times> nat jsnum) list \<Rightarrow> nat list" where
  "fin_vals [] = []"
| "fin_vals ((k, Fin d) # D) = d # fin_vals D"
| "fin_vals ((k, Infinity) # D) = fin_vals D"
| "fin_vals ((k, NaN) # D) = fin_vals D"

text \<open>The unordered pair of the two ends of an edge.\<close>

definition upair :: "edge \<Rightarrow> nat set" where
  "upair e = {source e, target e}"

text \<open>
  The invariants of a generated graph: the ids of the nodes are \<open>0, ..., n - 1\<close> in order, no
  edge is a self-loop, both ends of every edge are ids, and no unordered pair occurs twice.
\<close>

definition well_formed :: "graph \<Rightarrow> bool" where
  "well_formed g \<longleftrightarrow>
     map node_id (nodes g) = [0..<length (nodes g)]
   \<and> (\<forall>e\<in>set (edges g). source e \<noteq> target e
          \<and> source e < length (nodes g) \<and> target e < length (nodes g))
   \<and> distinct (map upair (edges g))"

text \<open>A run of \<open>addEdge\<close> over a list of pairs, and what links the two halves of its state.\<close>

definition add_all :: "(nat \<times> nat) list \<Rightarrow> edge list \<times> string list \<Rightarrow> edge list \<times> string list" where
  "add_all ps st = foldl (\<lambda>st p. addEdge (fst p) (snd p) st) st ps"

definition edge_key :: "edge \<Rightarrow> string" where
  "edge_key e = edgeKey (min (source e) (target e)) (max (source e) (target e))"

definition dedup_inv :: "edge list \<times> string list \<Rightarrow> bool" where
  "dedup_inv st \<longleftrightarrow>
     set (snd st) = edge_key ` set (fst st)
   \<and> (\<forall>e\<in>set (fst st). source e \<noteq> target e)
   \<and> distinct (map upair (fst st))"

text \<open>\<open>q\<close> is \<open>x\<close> rounded to 3 decimal places: a multiple of \<open>1/1000\<close> nearest to \<open>x\<close>.\<close>

definition rounded3 :: "rat \<Rightarrow> rat \<Rightarrow> bool" where
  "rounded3 q x \<longleftrightarrow> (\<exists>k::int. q = of_int k / 1000) \<and> \<bar>q - x\<bar> \<le> 1 / 2000"

section \<open>Example graphs\<close>

text \<open>A graph of two components: two disjoint edges.\<close>

definition two_pairs :: graph where
  "two_pairs = \<lparr>nodes = map ring_node [0, 1, 2, 3],
                 edges = [\<lparr>source = 0, target = 1\<rparr>, \<lparr>source = 2, target = 3\<rparr>]\<rparr>"

section \<open>Vocabulary for the generators\<close>

definition ring_pairs :: "nat \<Rightarrow> nat \<Rightarrow> (nat \<times> nat) list" where
  "ring_pairs n s =
     map (\<lambda>i. (i, (i + 1) mod n)) [0..<n]
     @ (if s > 1 \<and> n \<ge> 3 then map (\<lambda>i. (i, (i + s) mod n)) [0..<n] else [])"

definition torus_cell_pairs :: "nat \<Rightarrow> nat \<Rightarrow> nat \<Rightarrow> nat \<Rightarrow> (nat \<times> nat) list" where
  "torus_cell_pairs R C r c =
     (if R > 1 then [(nodeAt R C r c, nodeAt R C (r + 1) c)] else [])
     @ (if C > 1 then [(nodeAt R C r c, nodeAt R C r (c + 1))] else [])"

definition cube_pairs :: "nat \<Rightarrow> (nat \<times> nat) list" where
  "cube_pairs d = concat (map (\<lambda>i. map (\<lambda>j. (i, xor i (2 ^ j))) [0..<d]) [0..<2 ^ d])"

definition binary_digits :: "nat \<Rightarrow> nat \<Rightarrow> string" where
  "binary_digits d i = map (\<lambda>k. if bit i (d - 1 - k) then CHR ''1'' else CHR ''0'') [0..<d]"

definition mesh_inv :: "nat \<Rightarrow> nat \<Rightarrow> nat \<Rightarrow> mesh_state \<Rightarrow> bool" where
  "mesh_inv C r c st \<longleftrightarrow>
     idCounter st = r * C + c
   \<and> map node_id (mesh_nodes st) = [0..<r * C + c]
   \<and> (\<forall>r' c'. c' < C \<and> (r' < r \<or> (r' = r \<and> c' < c))
         \<longrightarrow> grid_read (nodeGrid st) r' c' = Some (r' * C + c'))
   \<and> (\<forall>e\<in>set (mesh_edges st). target e < source e \<and> source e < r * C + c)
   \<and> distinct (map upair (mesh_edges st))"

section \<open>Concrete topologies\<close>

text \<open>
  Claim C7. \<open>generateTorus(4, 5)\<close> returns exactly 20 nodes, the node at row \<open>r\<close> and column
  \<open>c\<close> having id \<open>r * 5 + c\<close> (so the ids are 0, ..., 19 in order), and exactly 40 edges;
  each of the 20 nodes has degree exactly 4, an undirected edge counting once at each of
  its two ends.
\<close>

theorem torus_4_5:
  "(let g = generateTorus 4 5
    in nodes g = concat (map (\<lambda>r. map (\<lambda>c. grid_node (r * 5 + c) r c) [0..<5]) [0..<4])
     \<and> length (nodes g) = 20
     \<and> map node_id (nodes g) = [0..<20]
     \<and> length (edges g) = 40
     \<and> map (degree g) [0..<20] = replicate 20 4)"
  by code_simp

text \<open>
  Claim C8. \<open>generateRing(12, 1)\<close> returns exactly 12 nodes and exactly 12 edges, the pure
  cycle; \<open>generateRing(12, 6)\<close> returns 12 nodes and exactly 18 edges: the 12 edges of the
  base cycle followed by the 6 distinct chords \<open>(i, i + 6)\<close> for \<open>i < 6\<close>, the chords found
  from \<open>i \<ge> 6\<close> being dropped as repetitions.
\<close>

theorem ring_12_edge_counts:
  "(let g = snd (generateRing 12 1)
    in g = \<lparr>nodes = map ring_node [0..<12],
             edges = map (\<lambda>i. \<lparr>source = i, target = (i + 1) mod 12\<rparr>) [0..<12]\<rparr>
     \<and> length (nodes g) = 12 \<and> length (edges g) = 12)
   \<and> (let g = snd (generateRing 12 6)
    in g = \<lparr>nodes = map ring_node [0..<12],
             edges = map (\<lambda>i. \<lparr>source = i, target = (i + 1) mod 12\<rparr>) [0..<12]
                   @ map (\<lambda>i. \<lparr>source = i, target = i + 6\<rparr>) [0..<6]\<rparr>
     \<and> length (nodes g) = 12 \<and> length (edges g) = 18)"
  by code_simp

section \<open>Clamping of the skip distance\<close>

text \<open>
  Claim C9. For every \<open>n \<ge> 1\<close> and every skip value, \<open>generateRing(n, skip)\<close> returns the
  graph of \<open>generateRing(n, s)\<close>, where \<open>s\<close> is \<open>skip\<close> clamped into
  \<open>[1, max(1, floor(n/2))]\<close>. The call returns normally; it prints one warning exactly when
  the skip was out of range, and none when it is called with the clamped value.
\<close>

theorem generateRing_clamps_skip:
  assumes "1 \<le> n"
  shows "(let s = max 1 (min skip (max 1 (n div 2)))
          in snd (generateRing n skip) = snd (generateRing n s)
           \<and> fst (generateRing n skip) = (if skip = s then [] else [SkipAdjusted skip s n])
           \<and> fst (generateRing n s) = []
           \<and> 1 \<le> s \<and> s \<le> max 1 (n div 2))"
proof -
  define s where "s = max 1 (min skip (max 1 (n div 2)))"
  have idem: "max 1 (min s (max 1 (n div 2))) = s"
    by (simp add: s_def)
  have a: "snd (generateRing n skip) = snd (generateRing n s)"
    unfolding generateRing_def Let_def idem s_def[symmetric] by simp
  have b: "fst (generateRing n skip) = (if skip = s then [] else [SkipAdjusted skip s n])"
    using assms unfolding generateRing_def Let_def s_def[symmetric] by auto
  have c: "fst (generateRing n s) = []"
    using assms unfolding generateRing_def Let_def idem by auto
  have d: "1 \<le> s \<and> s \<le> max 1 (n div 2)"
    by (simp add: s_def)
  show ?thesis
    unfolding Let_def s_def[symmetric] using a b c d by simp
qed

theorem generateRing_clamps_skip_witness:
  "(1::int) \<le> 12
   \<and> snd (generateRing 12 20) = snd (generateRing 12 6)
   \<and> fst (generateRing 12 20) = [SkipAdjusted 20 6 12]
   \<and> fst (generateRing 12 6) = []"
  using generateRing_clamps_skip [of 12 20] by (simp add: Let_def)

section \<open>Correctness of breadth-first search\<close>

lemma bfs_visit_fold:
  assumes "map_of (distances st) u = Some (Fin du)"
      and "\<forall>v. map_of (distances st) v = Some Infinity \<longrightarrow> v \<in> fst ` set (predecessors st)"
  shows "\<exists>new. distinct new
     \<and> set new = {v \<in> set nbrs. map_of (distances st) v = Some Infinity}
     \<and> queue (foldl (bfs_visit u) st nbrs) = queue st @ new
     \<and> head (foldl (bfs_visit u) st nbrs) = head st
     \<and> map_of (distances (foldl (bfs_visit u) st nbrs))
         = (\<lambda>x. if x \<in> set new then Some (Fin (du + 1)) else map_of (distances st) x)
     \<and> map fst (distances (foldl (bfs_visit u) st nbrs)) = map fst (distances st)
     \<and> map_of (predecessors (foldl (bfs_visit u) st nbrs))
         = (\<lambda>x. if x \<in> set new then Some (Some u) else map_of (predecessors st) x)
     \<and> map fst (predecessors (foldl (bfs_visit u) st nbrs)) = map fst (predecessors st)"
  using assms
proof (induction nbrs arbitrary: st)
  case Nil
  show ?case by (rule exI[of _ "[]"]) simp
next
  case (Cons v vs)
  show ?case
  proof (cases "map_of (distances st) v = Some Infinity")
    case False
    then have same: "bfs_visit u st v = st" by (simp add: bfs_visit_def)
    from Cons.IH[OF Cons.prems] obtain new where n: "distinct new"
      "set new = {v \<in> set vs. map_of (distances st) v = Some Infinity}"
      "queue (foldl (bfs_visit u) st vs) = queue st @ new"
      "head (foldl (bfs_visit u) st vs) = head st"
      "map_of (distances (foldl (bfs_visit u) st vs))
         = (\<lambda>x. if x \<in> set new then Some (Fin (du + 1)) else map_of (distances st) x)"
      "map fst (distances (foldl (bfs_visit u) st vs)) = map fst (distances st)"
      "map_of (predecessors (foldl (bfs_visit u) st vs))
         = (\<lambda>x. if x \<in> set new then Some (Some u) else map_of (predecessors st) x)"
      "map fst (predecessors (foldl (bfs_visit u) st vs)) = map fst (predecessors st)"
      by blast
    have "set new = {x \<in> set (v # vs). map_of (distances st) x = Some Infinity}"
      using n(2) False by auto
    with n show ?thesis unfolding foldl_Cons same by blast
  next
    case True
    define st1 where "st1 = bfs_visit u st v"
    have uv: "u \<noteq> v" using True Cons.prems(1) by auto
    have vP: "v \<in> fst ` set (predecessors st)" using True Cons.prems(2) by blast
    have vD: "v \<in> fst ` set (distances st)" using True map_of_eq_None_iff[of "distances st" v] by auto
    have d1: "map_of (distances st1) = (map_of (distances st))(v \<mapsto> Fin (du + 1))"
      using True Cons.prems(1) by (simp add: st1_def bfs_visit_def update_conv')
    have p1: "map_of (predecessors st1) = (map_of (predecessors st))(v \<mapsto> Some u)"
      using True by (simp add: st1_def bfs_visit_def update_conv')
    have k1: "map fst (distances st1) = map fst (distances st)"
      using True vD by (simp add: st1_def bfs_visit_def update_keys)
    have kp1: "map fst (predecessors st1) = map fst (predecessors st)"
      using True vP by (simp add: st1_def bfs_visit_def update_keys)
    have q1: "queue st1 = queue st @ [v]" "head st1 = head st"
      using True by (simp_all add: st1_def bfs_visit_def)
    have a1: "map_of (distances st1) u = Some (Fin du)"
      using d1 uv Cons.prems(1) by simp
    have a2: "\<forall>x. map_of (distances st1) x = Some Infinity \<longrightarrow> x \<in> fst ` set (predecessors st1)"
    proof (intro allI impI)
      fix x assume "map_of (distances st1) x = Some Infinity"
      then have "map_of (distances st) x = Some Infinity" using d1 by (auto split: if_splits)
      then have "x \<in> fst ` set (predecessors st)" using Cons.prems(2) by blast
      then have "x \<in> set (map fst (predecessors st))" by simp
      then show "x \<in> fst ` set (predecessors st1)" using kp1 by (metis list.set_map)
    qed
    from Cons.IH[OF a1 a2] obtain new where n: "distinct new"
      "set new = {x \<in> set vs. map_of (distances st1) x = Some Infinity}"
      "queue (foldl (bfs_visit u) st1 vs) = queue st1 @ new"
      "head (foldl (bfs_visit u) st1 vs) = head st1"
      "map_of (distances (foldl (bfs_visit u) st1 vs))
         = (\<lambda>x. if x \<in> set new then Some (Fin (du + 1)) else map_of (distances st1) x)"
      "map fst (distances (foldl (bfs_visit u) st1 vs)) = map fst (distances st1)"
      "map_of (predecessors (foldl (bfs_visit u) st1 vs))
         = (\<lambda>x. if x \<in> set new then Some (Some u) else map_of (predecessors st1) x)"
      "map fst (predecessors (foldl (bfs_visit u) st1 vs)) = map fst (predecessors st1)"
      by blast
    have vnew: "v \<notin> set new" using n(2) d1 by simp
    have s2: "set (v # new) = {x \<in> set (v # vs). map_of (distances st) x = Some Infinity}"
      using n(2) d1 True by (auto split: if_splits)
    have f: "foldl (bfs_visit u) st (v # vs) = foldl (bfs_visit u) st1 vs"
      by (simp add: st1_def)
    have c1: "distinct (v # new)" using vnew n(1) by simp
    have c3: "queue (foldl (bfs_visit u) st (v # vs)) = queue st @ (v # new)"
      unfolding f n(3) q1 by simp
    have c4: "head (foldl (bfs_visit u) st (v # vs)) = head st"
      unfolding f n(4) q1 by simp
    have c5: "map_of (distances (foldl (bfs_visit u) st (v # vs)))
         = (\<lambda>x. if x \<in> set (v # new) then Some (Fin (du + 1)) else map_of (distances st) x)"
      unfolding f n(5) d1 by auto
    have c6: "map fst (distances (foldl (bfs_visit u) st (v # vs))) = map fst (distances st)"
      unfolding f n(6) k1 by simp
    have c7: "map_of (predecessors (foldl (bfs_visit u) st (v # vs)))
         = (\<lambda>x. if x \<in> set (v # new) then Some (Some u) else map_of (predecessors st) x)"
      unfolding f n(7) p1 by auto
    have c8: "map fst (predecessors (foldl (bfs_visit u) st (v # vs))) = map fst (predecessors st)"
      unfolding f n(8) kp1 by simp
    show ?thesis
      using c1 s2 c3 c4 c5 c6 c7 c8 by blast
  qed
qed

lemma finite_inf_nodes: "finite (inf_nodes st)"
proof -
  have "inf_nodes st \<subseteq> dom (map_of (distances st))" by (auto simp: inf_nodes_def)
  then show ?thesis using finite_dom_map_of finite_subset by blast
qed

lemma bfs_invD:
  assumes "bfs_inv s adj st"
  shows "head st \<le> length (queue st)"
    and "\<And>x. (\<exists>d. map_of (distances st) x = Some (Fin d)) \<longleftrightarrow> x \<in> set (queue st)"
    and "\<And>x. map_of (distances st) x \<noteq> Some NaN"
    and "\<And>x d. map_of (distances st) x = Some (Fin d) \<Longrightarrow> (s, x) \<in> adj_edges adj ^^ d"
    and "map_of (distances st) s = Some (Fin 0)"
    and "sorted (map (dval (distances st)) (drop (head st) (queue st)))"
    and "\<And>x. head st < length (queue st) \<Longrightarrow> x \<in> set (queue st)
          \<Longrightarrow> dval (distances st) x \<le> dval (distances st) (queue st ! head st) + 1"
    and "\<And>i v. i < head st \<Longrightarrow> v \<in> set (neighbors adj (queue st ! i)) \<Longrightarrow> v \<in> fst ` set (distances st)
          \<Longrightarrow> \<exists>d. map_of (distances st) v = Some (Fin d) \<and> d \<le> dval (distances st) (queue st ! i) + 1"
    and "\<And>v p. map_of (predecessors st) v = Some (Some p) \<Longrightarrow>
          (p, v) \<in> adj_edges adj
          \<and> (\<exists>d. map_of (distances st) p = Some (Fin d) \<and> map_of (distances st) v = Some (Fin (d + 1)))"
    and "\<And>v d. map_of (distances st) v = Some (Fin d) \<Longrightarrow> v \<noteq> s
          \<Longrightarrow> \<exists>p. map_of (predecessors st) v = Some (Some p)"
    and "\<And>v. map_of (distances st) v = Some Infinity \<Longrightarrow> map_of (predecessors st) v = Some None"
proof -
  note I = assms[unfolded bfs_inv_def]
  note c1 = I[THEN conjunct1]
  note r1 = I[THEN conjunct2]
  note c2 = r1[THEN conjunct1]
  note r2 = r1[THEN conjunct2]
  note c3 = r2[THEN conjunct1]
  note r3 = r2[THEN conjunct2]
  note c4 = r3[THEN conjunct1]
  note r4 = r3[THEN conjunct2]
  note c5 = r4[THEN conjunct1]
  note r5 = r4[THEN conjunct2]
  note c6 = r5[THEN conjunct1]
  note r6 = r5[THEN conjunct2]
  note c7 = r6[THEN conjunct1]
  note r7 = r6[THEN conjunct2]
  note c8 = r7[THEN conjunct1]
  note r8 = r7[THEN conjunct2]
  note c9 = r8[THEN conjunct1]
  note r9 = r8[THEN conjunct2]
  note c10 = r9[THEN conjunct1]
  note c11 = r9[THEN conjunct2]
  show "head st \<le> length (queue st)" by (rule c1)
  show "\<And>x. (\<exists>d. map_of (distances st) x = Some (Fin d)) \<longleftrightarrow> x \<in> set (queue st)"
    using c2 by blast
  show "\<And>x. map_of (distances st) x \<noteq> Some NaN" using c3 by blast
  show "\<And>x d. map_of (distances st) x = Some (Fin d) \<Longrightarrow> (s, x) \<in> adj_edges adj ^^ d"
    using c4 by blast
  show "map_of (distances st) s = Some (Fin 0)" by (rule c5)
  show "sorted (map (dval (distances st)) (drop (head st) (queue st)))" by (rule c6)
  show "\<And>x. head st < length (queue st) \<Longrightarrow> x \<in> set (queue st)
          \<Longrightarrow> dval (distances st) x \<le> dval (distances st) (queue st ! head st) + 1"
    using c7 by blast
  show "\<And>i v. i < head st \<Longrightarrow> v \<in> set (neighbors adj (queue st ! i)) \<Longrightarrow> v \<in> fst ` set (distances st)
          \<Longrightarrow> \<exists>d. map_of (distances st) v = Some (Fin d) \<and> d \<le> dval (distances st) (queue st ! i) + 1"
    using c8 by blast
  show "\<And>v p. map_of (predecessors st) v = Some (Some p) \<Longrightarrow>
          (p, v) \<in> adj_edges adj
          \<and> (\<exists>d. map_of (distances st) p = Some (Fin d) \<and> map_of (distances st) v = Some (Fin (d + 1)))"
    using c9 by blast
  show "\<And>v d. map_of (distances st) v = Some (Fin d) \<Longrightarrow> v \<noteq> s
          \<Longrightarrow> \<exists>p. map_of (predecessors st) v = Some (Some p)"
    using c10 by blast
  show "\<And>v. map_of (distances st) v = Some Infinity \<Longrightarrow> map_of (predecessors st) v = Some None"
    using c11 by blast
qed

lemma bfs_invI:
  assumes "head st \<le> length (queue st)"
    and "\<And>x. (\<exists>d. map_of (distances st) x = Some (Fin d)) \<longleftrightarrow> x \<in> set (queue st)"
    and "\<And>x. map_of (distances st) x \<noteq> Some NaN"
    and "\<And>x d. map_of (distances st) x = Some (Fin d) \<Longrightarrow> (s, x) \<in> adj_edges adj ^^ d"
    and "map_of (distances st) s = Some (Fin 0)"
    and "sorted (map (dval (distances st)) (drop (head st) (queue st)))"
    and "\<And>x. head st < length (queue st) \<Longrightarrow> x \<in> set (queue st)
          \<Longrightarrow> dval (distances st) x \<le> dval (distances st) (queue st ! head st) + 1"
    and "\<And>i v. i < head st \<Longrightarrow> v \<in> set (neighbors adj (queue st ! i)) \<Longrightarrow> v \<in> fst ` set (distances st)
          \<Longrightarrow> \<exists>d. map_of (distances st) v = Some (Fin d) \<and> d \<le> dval (distances st) (queue st ! i) + 1"
    and "\<And>v p. map_of (predecessors st) v = Some (Some p) \<Longrightarrow>
          (p, v) \<in> adj_edges adj
          \<and> (\<exists>d. map_of (distances st) p = Some (Fin d) \<and> map_of (distances st) v = Some (Fin (d + 1)))"
    and "\<And>v d. map_of (distances st) v = Some (Fin d) \<Longrightarrow> v \<noteq> s
          \<Longrightarrow> \<exists>p. map_of (predecessors st) v = Some (Some p)"
    and "\<And>v. map_of (distances st) v = Some Infinity \<Longrightarrow> map_of (predecessors st) v = Some None"
  shows "bfs_inv s adj st"
  unfolding bfs_inv_def
proof (intro conjI)
  show "head st \<le> length (queue st)" by (rule assms(1))
  show "\<forall>x. (\<exists>d. map_of (distances st) x = Some (Fin d)) \<longleftrightarrow> x \<in> set (queue st)"
    using assms(2) by blast
  show "\<forall>x. map_of (distances st) x \<noteq> Some NaN" using assms(3) by blast
  show "\<forall>x d. map_of (distances st) x = Some (Fin d) \<longrightarrow> (s, x) \<in> adj_edges adj ^^ d"
    using assms(4) by blast
  show "map_of (distances st) s = Some (Fin 0)" by (rule assms(5))
  show "sorted (map (dval (distances st)) (drop (head st) (queue st)))" by (rule assms(6))
  show "head st < length (queue st) \<longrightarrow>
        (\<forall>x\<in>set (queue st). dval (distances st) x \<le> dval (distances st) (queue st ! head st) + 1)"
    using assms(7) by blast
  show "\<forall>i<head st. \<forall>v\<in>set (neighbors adj (queue st ! i)). v \<in> fst ` set (distances st) \<longrightarrow>
        (\<exists>d. map_of (distances st) v = Some (Fin d) \<and> d \<le> dval (distances st) (queue st ! i) + 1)"
    using assms(8) by blast
  show "\<forall>v p. map_of (predecessors st) v = Some (Some p) \<longrightarrow>
        (p, v) \<in> adj_edges adj
        \<and> (\<exists>d. map_of (distances st) p = Some (Fin d) \<and> map_of (distances st) v = Some (Fin (d + 1)))"
    using assms(9) by blast
  show "\<forall>v d. map_of (distances st) v = Some (Fin d) \<and> v \<noteq> s \<longrightarrow>
        (\<exists>p. map_of (predecessors st) v = Some (Some p))"
    using assms(10) by blast
  show "\<forall>v. map_of (distances st) v = Some Infinity \<longrightarrow> map_of (predecessors st) v = Some None"
    using assms(11) by blast
qed

lemma bfs_expand_step:
  assumes inv: "bfs_inv s adj st" and lt: "head st < length (queue st)"
  shows "bfs_inv s adj (bfs_expand adj st)
       \<and> map fst (distances (bfs_expand adj st)) = map fst (distances st)
       \<and> map fst (predecessors (bfs_expand adj st)) = map fst (predecessors st)
       \<and> card (inf_nodes (bfs_expand adj st)) + length (queue (bfs_expand adj st)) - head (bfs_expand adj st)
           < card (inf_nodes st) + length (queue st) - head st"
proof -
  define u where "u = queue st ! head st"
  define D where "D = map_of (distances st)"
  define P where "P = map_of (predecessors st)"
  define E where "E = adj_edges adj"
  define st' where "st' = bfs_expand adj st"
  define D' where "D' = map_of (distances st')"
  define P' where "P' = map_of (predecessors st')"
  note I = bfs_invD[OF inv, folded D_def P_def E_def]
  note I1 = I(1) and I2 = I(2) and I3 = I(3) and I4 = I(4) and I5 = I(5) and I6 = I(6)
    and I8 = I(8) and I9 = I(9) and I10 = I(10) and I11 = I(11)
  have I7: "\<And>x. x \<in> set (queue st) \<Longrightarrow> dval (distances st) x \<le> dval (distances st) u + 1"
    using I(7) lt unfolding u_def by blast
  have uq: "u \<in> set (queue st)" using lt by (simp add: u_def)
  then obtain du where du: "D u = Some (Fin du)" using I2 by blast
  have dvu: "dval (distances st) u = du" using du by (simp add: dval_def D_def)
  let ?st0 = "st\<lparr>head := head st + 1\<rparr>"
  have a1: "map_of (distances ?st0) u = Some (Fin du)" using du by (simp add: D_def)
  have a2: "\<forall>v. map_of (distances ?st0) v = Some Infinity \<longrightarrow> v \<in> fst ` set (predecessors ?st0)"
  proof (intro allI impI)
    fix v assume "map_of (distances ?st0) v = Some Infinity"
    then have "P v = Some None" using I11 by (simp add: D_def)
    then show "v \<in> fst ` set (predecessors ?st0)"
      using map_of_eq_None_iff[of "predecessors st" v] by (auto simp: P_def)
  qed
  have st'_eq: "st' = foldl (bfs_visit u) ?st0 (neighbors adj u)"
    by (simp add: st'_def bfs_expand_def u_def Let_def)
  have ex: "\<exists>new. distinct new
      \<and> set new = {v \<in> set (neighbors adj u). D v = Some Infinity}
      \<and> queue st' = queue st @ new
      \<and> head st' = head st + 1
      \<and> D' = (\<lambda>x. if x \<in> set new then Some (Fin (du + 1)) else D x)
      \<and> map fst (distances st') = map fst (distances st)
      \<and> P' = (\<lambda>x. if x \<in> set new then Some (Some u) else P x)
      \<and> map fst (predecessors st') = map fst (predecessors st)"
    using bfs_visit_fold[OF a1 a2, of "neighbors adj u"]
    unfolding st'_eq D'_def P'_def D_def P_def by (simp cong: if_cong)
  then obtain new where
        n1: "distinct new"
    and n2: "set new = {v \<in> set (neighbors adj u). D v = Some Infinity}"
    and n3: "queue st' = queue st @ new"
    and n4: "head st' = head st + 1"
    and n5: "D' = (\<lambda>x. if x \<in> set new then Some (Fin (du + 1)) else D x)"
    and n6: "map fst (distances st') = map fst (distances st)"
    and n7: "P' = (\<lambda>x. if x \<in> set new then Some (Some u) else P x)"
    and n8: "map fst (predecessors st') = map fst (predecessors st)"
    by (elim exE conjE)
  have newq: "\<And>x. x \<in> set new \<Longrightarrow> x \<notin> set (queue st)"
  proof
    fix x assume xn: "x \<in> set new" and xq: "x \<in> set (queue st)"
    have "D x = Some Infinity" using xn n2 by simp
    moreover have "\<exists>d. D x = Some (Fin d)" using xq I2[of x] by simp
    ultimately show False by auto
  qed
  have newE: "\<And>x. x \<in> set new \<Longrightarrow> (u, x) \<in> E"
    using n2 by (auto simp: E_def adj_edges_def)
  have dv_old: "\<And>x. x \<notin> set new \<Longrightarrow> dval (distances st') x = dval (distances st) x"
    using n5 by (simp add: dval_def D'_def[symmetric] D_def[symmetric])
  have dv_new: "\<And>x. x \<in> set new \<Longrightarrow> dval (distances st') x = du + 1"
    using n5 by (simp add: dval_def D'_def[symmetric])
  have dv_q: "\<And>x. x \<in> set (queue st) \<Longrightarrow> dval (distances st') x = dval (distances st) x"
    using dv_old newq by blast
  have fin_q: "\<And>x d. D x = Some (Fin d) \<Longrightarrow> x \<in> set (queue st)"
    using I2 by blast
  have fin_mono: "\<And>x d. D x = Some (Fin d) \<Longrightarrow> D' x = Some (Fin d)"
  proof -
    fix x d assume a: "D x = Some (Fin d)"
    then have "x \<notin> set new" using newq fin_q by blast
    then show "D' x = Some (Fin d)" using n5 a by simp
  qed
  have J1: "head st' \<le> length (queue st')" using n3 n4 lt by simp
  have J2: "\<And>x. (\<exists>d. D' x = Some (Fin d)) \<longleftrightarrow> x \<in> set (queue st')"
  proof -
    fix x show "(\<exists>d. D' x = Some (Fin d)) \<longleftrightarrow> x \<in> set (queue st')"
    proof (cases "x \<in> set new")
      case True then show ?thesis using n5 n3 by simp
    next
      case False then show ?thesis using n5 n3 I2[of x] by simp
    qed
  qed
  have J3: "\<And>x. D' x \<noteq> Some NaN" using n5 I3 by auto
  have J4: "\<And>x d. D' x = Some (Fin d) \<Longrightarrow> (s, x) \<in> E ^^ d"
  proof -
    fix x d assume a: "D' x = Some (Fin d)"
    show "(s, x) \<in> E ^^ d"
    proof (cases "x \<in> set new")
      case True
      then have "d = Suc du" using a n5 by simp
      moreover have "(s, u) \<in> E ^^ du" using I4 du by blast
      moreover have "(u, x) \<in> E" using newE True by blast
      ultimately show ?thesis by auto
    next
      case False
      then show ?thesis using a n5 I4 by simp
    qed
  qed
  have J5: "D' s = Some (Fin 0)" using fin_mono I5 by blast
  have sorted_tl: "sorted (map (dval (distances st)) (drop (Suc (head st)) (queue st)))"
    using sorted_wrt_drop[OF I6, of 1] by (simp add: drop_map)
  have sub_drop: "set (drop (Suc (head st)) (queue st)) \<subseteq> set (drop (head st) (queue st))"
    by (rule set_drop_subset_set_drop) simp
  have J6: "sorted (map (dval (distances st')) (drop (head st') (queue st')))"
  proof -
    have e1: "drop (head st') (queue st') = drop (Suc (head st)) (queue st) @ new"
      using n3 n4 lt by simp
    have e2: "map (dval (distances st')) (drop (Suc (head st)) (queue st))
            = map (dval (distances st)) (drop (Suc (head st)) (queue st))"
      by (rule map_cong[OF refl]) (meson dv_q in_set_dropD)
    have "map (dval (distances st')) new = map (\<lambda>x. du + 1) new"
      by (rule map_cong[OF refl]) (simp add: dv_new)
    then have e3: "map (dval (distances st')) new = replicate (length new) (du + 1)"
      by (simp add: map_replicate_const)
    have le: "\<And>x. x \<in> set (drop (Suc (head st)) (queue st)) \<Longrightarrow> dval (distances st) x \<le> du + 1"
      using I7 dvu by (metis in_set_dropD)
    show ?thesis
      unfolding e1 map_append e2 e3 using sorted_tl le
      by (auto simp: sorted_append)
  qed
  have hd_le: "\<And>x. x \<in> set (drop (head st) (queue st)) \<Longrightarrow> du \<le> dval (distances st) x"
  proof -
    fix x assume x: "x \<in> set (drop (head st) (queue st))"
    have e: "drop (head st) (queue st) = u # drop (Suc (head st)) (queue st)"
      using lt by (simp add: u_def Cons_nth_drop_Suc)
    have "sorted (dval (distances st) u # map (dval (distances st)) (drop (Suc (head st)) (queue st)))"
      using I6 unfolding e by simp
    then have "\<forall>y\<in>set (drop (Suc (head st)) (queue st)). dval (distances st) u \<le> dval (distances st) y"
      by simp
    moreover have "x = u \<or> x \<in> set (drop (Suc (head st)) (queue st))" using x unfolding e by simp
    ultimately show "du \<le> dval (distances st) x" using dvu by auto
  qed
  have J7: "\<And>x. head st' < length (queue st') \<Longrightarrow> x \<in> set (queue st')
        \<Longrightarrow> dval (distances st') x \<le> dval (distances st') (queue st' ! head st') + 1"
  proof -
    fix x
    assume lt': "head st' < length (queue st')"
    assume x: "x \<in> set (queue st')"
    define w where "w = queue st' ! head st'"
    have xle: "dval (distances st') x \<le> du + 1"
    proof (cases "x \<in> set new")
      case True then show ?thesis using dv_new by simp
    next
      case False
      then have "x \<in> set (queue st)" using x n3 by simp
      then show ?thesis using I7[of x] dv_q[of x] dvu by simp
    qed
    have "drop (head st') (queue st') = w # drop (Suc (head st')) (queue st')"
      using lt' by (simp add: w_def Cons_nth_drop_Suc)
    then have "w \<in> set (drop (head st') (queue st'))" by simp
    then have "w \<in> set (drop (Suc (head st)) (queue st) @ new)"
      using n3 n4 lt by simp
    then have "w \<in> set (drop (Suc (head st)) (queue st)) \<or> w \<in> set new"
      by simp
    then have "du \<le> dval (distances st') w"
    proof
      assume a: "w \<in> set (drop (Suc (head st)) (queue st))"
      then have "w \<in> set (drop (head st) (queue st))" using sub_drop by blast
      then have "du \<le> dval (distances st) w" using hd_le by blast
      moreover have "w \<in> set (queue st)" using a by (meson in_set_dropD)
      ultimately show ?thesis using dv_q by simp
    next
      assume "w \<in> set new" then show ?thesis using dv_new by simp
    qed
    then show "dval (distances st') x \<le> dval (distances st') (queue st' ! head st') + 1"
      using xle unfolding w_def by simp
  qed
  have keys: "fst ` set (distances st') = fst ` set (distances st)"
    using n6 by (metis list.set_map)
  have J8: "\<And>i v. i < head st' \<Longrightarrow> v \<in> set (neighbors adj (queue st' ! i)) \<Longrightarrow> v \<in> fst ` set (distances st')
      \<Longrightarrow> \<exists>d. D' v = Some (Fin d) \<and> d \<le> dval (distances st') (queue st' ! i) + 1"
  proof -
    fix i v
    assume i: "i < head st'" and v: "v \<in> set (neighbors adj (queue st' ! i))"
      and vk: "v \<in> fst ` set (distances st')"
    have il: "i < length (queue st)" using i n4 lt by simp
    have qi: "queue st' ! i = queue st ! i" using il n3 by (simp add: nth_append)
    have qiq: "queue st ! i \<in> set (queue st)" using il by simp
    have dvi: "dval (distances st') (queue st ! i) = dval (distances st) (queue st ! i)"
      using dv_q qiq by blast
    have vk0: "v \<in> fst ` set (distances st)" using vk keys by simp
    show "\<exists>d. D' v = Some (Fin d) \<and> d \<le> dval (distances st') (queue st' ! i) + 1"
    proof (cases "i < head st")
      case True
      from I8[OF True v[unfolded qi] vk0] obtain d where
        "D v = Some (Fin d)" "d \<le> dval (distances st) (queue st ! i) + 1" by blast
      then show ?thesis using fin_mono qi dvi by auto
    next
      case False
      then have ih: "i = head st" using i n4 by simp
      then have qu: "queue st ! i = u" by (simp add: u_def)
      have vu: "v \<in> set (neighbors adj u)" using v qi qu by simp
      obtain x where x: "D v = Some x"
        using vk0 map_of_eq_None_iff[of "distances st" v] unfolding D_def by auto
      show ?thesis
      proof (cases x)
        case (Fin d)
        then have dv: "D v = Some (Fin d)" using x by simp
        then have "v \<in> set (queue st)" using fin_q by blast
        then have "dval (distances st) v \<le> du + 1" using I7 dvu by simp
        moreover have "dval (distances st) v = d" using dv by (simp add: dval_def D_def)
        ultimately show ?thesis using fin_mono[OF dv] qi qu dvi dvu by simp
      next
        case Infinity
        then have "v \<in> set new" using n2 vu x by simp
        then have "D' v = Some (Fin (du + 1))" using n5 by simp
        then show ?thesis using qi qu dvi dvu by simp
      next
        case NaN
        then show ?thesis using x I3 by simp
      qed
    qed
  qed
  have J9: "\<And>v p. P' v = Some (Some p) \<Longrightarrow>
        (p, v) \<in> E \<and> (\<exists>d. D' p = Some (Fin d) \<and> D' v = Some (Fin (d + 1)))"
  proof -
    fix v p assume a: "P' v = Some (Some p)"
    show "(p, v) \<in> E \<and> (\<exists>d. D' p = Some (Fin d) \<and> D' v = Some (Fin (d + 1)))"
    proof (cases "v \<in> set new")
      case True
      then have "p = u" using a n7 by simp
      moreover have "D' u = Some (Fin du)" using fin_mono du by blast
      moreover have "D' v = Some (Fin (du + 1))" using True n5 by simp
      ultimately show ?thesis using newE True by blast
    next
      case False
      then have "P v = Some (Some p)" using a n7 by simp
      then show ?thesis using I9 fin_mono by blast
    qed
  qed
  have J10: "\<And>v d. D' v = Some (Fin d) \<Longrightarrow> v \<noteq> s \<Longrightarrow> \<exists>p. P' v = Some (Some p)"
  proof -
    fix v d assume a: "D' v = Some (Fin d)" and vs: "v \<noteq> s"
    show "\<exists>p. P' v = Some (Some p)"
    proof (cases "v \<in> set new")
      case True then show ?thesis using n7 by simp
    next
      case False
      then have "D v = Some (Fin d)" using a n5 by simp
      then have "\<exists>p. P v = Some (Some p)" using I10 vs by blast
      then show ?thesis using False n7 by simp
    qed
  qed
  have J11: "\<And>v. D' v = Some Infinity \<Longrightarrow> P' v = Some None"
  proof -
    fix v assume a: "D' v = Some Infinity"
    have nv: "v \<notin> set new" using a n5 by auto
    then have "D v = Some Infinity" using a n5 by simp
    then have "P v = Some None" using I11 by blast
    then show "P' v = Some None" using nv n7 by simp
  qed
  have inv': "bfs_inv s adj st'"
    by (rule bfs_invI[of st' s adj, folded D'_def P'_def E_def, OF J1 J2 J3 J4 J5 J6 J7 J8 J9 J10 J11])
  have inf': "inf_nodes st' = inf_nodes st - set new"
    unfolding inf_nodes_def D'_def[symmetric] D_def[symmetric] n5 by auto
  have sub: "set new \<subseteq> inf_nodes st"
    unfolding inf_nodes_def D_def[symmetric] n2 by auto
  have cn: "card (set new) = length new" using n1 by (rule distinct_card)
  have "card (inf_nodes st') = card (inf_nodes st) - length new"
    unfolding inf' using sub cn finite_inf_nodes[of st] by (simp add: card_Diff_subset)
  moreover have "length new \<le> card (inf_nodes st)"
    using sub cn finite_inf_nodes[of st] by (metis card_mono)
  ultimately have meas: "card (inf_nodes st') + length (queue st') - head st'
      < card (inf_nodes st) + length (queue st) - head st"
    using n3 n4 lt by simp
  show ?thesis
    using inv' n6 n8 meas unfolding st'_def by simp
qed

lemma bfs_init_fold:
  "map_of (fst (foldl bfs_init dp ns)) = (\<lambda>x. if x \<in> node_ids ns then Some Infinity else map_of (fst dp) x)
 \<and> map_of (snd (foldl bfs_init dp ns)) = (\<lambda>x. if x \<in> node_ids ns then Some None else map_of (snd dp) x)
 \<and> fst ` set (fst (foldl bfs_init dp ns)) = fst ` set (fst dp) \<union> node_ids ns
 \<and> fst ` set (snd (foldl bfs_init dp ns)) = fst ` set (snd dp) \<union> node_ids ns
 \<and> (distinct (map fst (fst dp)) \<longrightarrow> distinct (map fst (fst (foldl bfs_init dp ns))))
 \<and> (distinct (map fst (snd dp)) \<longrightarrow> distinct (map fst (snd (foldl bfs_init dp ns))))"
proof (induction ns arbitrary: dp)
  case Nil
  show ?case by (simp add: node_ids_def)
next
  case (Cons n ns)
  define dp1 where "dp1 = bfs_init dp n"
  have f: "foldl bfs_init dp (n # ns) = foldl bfs_init dp1 ns" by (simp add: dp1_def)
  have 1: "map_of (fst dp1) = (map_of (fst dp))(node_id n \<mapsto> Infinity)"
    by (simp add: dp1_def bfs_init_def update_conv')
  have 2: "map_of (snd dp1) = (map_of (snd dp))(node_id n \<mapsto> None)"
    by (simp add: dp1_def bfs_init_def update_conv')
  have 3: "fst ` set (fst dp1) = insert (node_id n) (fst ` set (fst dp))"
    using dom_update[of "node_id n" Infinity "fst dp"] by (simp add: dp1_def bfs_init_def)
  have 4: "fst ` set (snd dp1) = insert (node_id n) (fst ` set (snd dp))"
    using dom_update[of "node_id n" None "snd dp"] by (simp add: dp1_def bfs_init_def)
  have 5: "distinct (map fst (fst dp)) \<Longrightarrow> distinct (map fst (fst dp1))"
    by (simp add: dp1_def bfs_init_def distinct_update)
  have 6: "distinct (map fst (snd dp)) \<Longrightarrow> distinct (map fst (snd dp1))"
    by (simp add: dp1_def bfs_init_def distinct_update)
  have ids: "node_ids (n # ns) = insert (node_id n) (node_ids ns)" by (simp add: node_ids_def)
  note IH = Cons.IH[of dp1]
  show ?case
    unfolding f ids
  proof (intro conjI)
    show "map_of (fst (foldl bfs_init dp1 ns)) =
      (\<lambda>x. if x \<in> insert (node_id n) (node_ids ns) then Some Infinity else map_of (fst dp) x)"
      using IH[THEN conjunct1] 1 by auto
    show "map_of (snd (foldl bfs_init dp1 ns)) =
      (\<lambda>x. if x \<in> insert (node_id n) (node_ids ns) then Some None else map_of (snd dp) x)"
      using IH[THEN conjunct2, THEN conjunct1] 2 by auto
    show "fst ` set (fst (foldl bfs_init dp1 ns)) = fst ` set (fst dp) \<union> insert (node_id n) (node_ids ns)"
      using IH[THEN conjunct2, THEN conjunct2, THEN conjunct1] 3 by auto
    show "fst ` set (snd (foldl bfs_init dp1 ns)) = fst ` set (snd dp) \<union> insert (node_id n) (node_ids ns)"
      using IH[THEN conjunct2, THEN conjunct2, THEN conjunct2, THEN conjunct1] 4 by auto
    show "distinct (map fst (fst dp)) \<longrightarrow> distinct (map fst (fst (foldl bfs_init dp1 ns)))"
      using IH[THEN conjunct2, THEN conjunct2, THEN conjunct2, THEN conjunct2, THEN conjunct1] 5 by blast
    show "distinct (map fst (snd dp)) \<longrightarrow> distinct (map fst (snd (foldl bfs_init dp1 ns)))"
      using IH[THEN conjunct2, THEN conjunct2, THEN conjunct2, THEN conjunct2, THEN conjunct2] 6 by blast
  qed
qed

lemma bfs_start_props:
  "map_of (distances (bfs_start s ns)) = (\<lambda>x. if x = s then Some (Fin 0) else if x \<in> node_ids ns then Some Infinity else None)"
  "map_of (predecessors (bfs_start s ns)) = (\<lambda>x. if x \<in> node_ids ns then Some None else None)"
  "fst ` set (distances (bfs_start s ns)) = insert s (node_ids ns)"
  "fst ` set (predecessors (bfs_start s ns)) = node_ids ns"
  "distinct (map fst (distances (bfs_start s ns)))"
  "distinct (map fst (predecessors (bfs_start s ns)))"
  "queue (bfs_start s ns) = [s]"
  "head (bfs_start s ns) = 0"
proof -
  note F = bfs_init_fold[of "([], [])" ns]
  show "map_of (distances (bfs_start s ns)) = (\<lambda>x. if x = s then Some (Fin 0) else if x \<in> node_ids ns then Some Infinity else None)"
    using F[THEN conjunct1] by (auto simp: bfs_start_def Let_def update_conv')
  show "map_of (predecessors (bfs_start s ns)) = (\<lambda>x. if x \<in> node_ids ns then Some None else None)"
    using F[THEN conjunct2, THEN conjunct1] by (auto simp: bfs_start_def Let_def)
  show "fst ` set (distances (bfs_start s ns)) = insert s (node_ids ns)"
    using F[THEN conjunct2, THEN conjunct2, THEN conjunct1]
      dom_update[of s "Fin 0" "fst (foldl bfs_init ([], []) ns)"]
    by (simp add: bfs_start_def Let_def)
  show "fst ` set (predecessors (bfs_start s ns)) = node_ids ns"
    using F[THEN conjunct2, THEN conjunct2, THEN conjunct2, THEN conjunct1]
    by (simp add: bfs_start_def Let_def)
  show "distinct (map fst (distances (bfs_start s ns)))"
    using F[THEN conjunct2, THEN conjunct2, THEN conjunct2, THEN conjunct2, THEN conjunct1]
    by (simp add: bfs_start_def Let_def distinct_update)
  show "distinct (map fst (predecessors (bfs_start s ns)))"
    using F[THEN conjunct2, THEN conjunct2, THEN conjunct2, THEN conjunct2, THEN conjunct2]
    by (simp add: bfs_start_def Let_def)
  show "queue (bfs_start s ns) = [s]" by (simp add: bfs_start_def Let_def)
  show "head (bfs_start s ns) = 0" by (simp add: bfs_start_def Let_def)
qed

lemma bfs_inv_start: "bfs_inv s adj (bfs_start s ns)"
proof (rule bfs_invI)
  note P = bfs_start_props[of s ns]
  show "head (bfs_start s ns) \<le> length (queue (bfs_start s ns))" by (simp add: P)
  show "\<And>x. (\<exists>d. map_of (distances (bfs_start s ns)) x = Some (Fin d)) \<longleftrightarrow> x \<in> set (queue (bfs_start s ns))"
    by (simp add: P)
  show "\<And>x. map_of (distances (bfs_start s ns)) x \<noteq> Some NaN" by (simp add: P)
  show "\<And>x d. map_of (distances (bfs_start s ns)) x = Some (Fin d) \<Longrightarrow> (s, x) \<in> adj_edges adj ^^ d"
    by (simp add: P split: if_splits)
  show "map_of (distances (bfs_start s ns)) s = Some (Fin 0)" by (simp add: P)
  show "sorted (map (dval (distances (bfs_start s ns))) (drop (head (bfs_start s ns)) (queue (bfs_start s ns))))"
    by (simp add: P)
  show "\<And>x. head (bfs_start s ns) < length (queue (bfs_start s ns)) \<Longrightarrow> x \<in> set (queue (bfs_start s ns))
          \<Longrightarrow> dval (distances (bfs_start s ns)) x
              \<le> dval (distances (bfs_start s ns)) (queue (bfs_start s ns) ! head (bfs_start s ns)) + 1"
    by (simp add: P)
  show "\<And>i v. i < head (bfs_start s ns) \<Longrightarrow> v \<in> set (neighbors adj (queue (bfs_start s ns) ! i))
          \<Longrightarrow> v \<in> fst ` set (distances (bfs_start s ns))
          \<Longrightarrow> \<exists>d. map_of (distances (bfs_start s ns)) v = Some (Fin d)
                \<and> d \<le> dval (distances (bfs_start s ns)) (queue (bfs_start s ns) ! i) + 1"
    by (simp add: P(8))
  show "\<And>v p. map_of (predecessors (bfs_start s ns)) v = Some (Some p) \<Longrightarrow>
          (p, v) \<in> adj_edges adj
          \<and> (\<exists>d. map_of (distances (bfs_start s ns)) p = Some (Fin d)
                \<and> map_of (distances (bfs_start s ns)) v = Some (Fin (d + 1)))"
    by (simp add: P(2) split: if_splits)
  show "\<And>v d. map_of (distances (bfs_start s ns)) v = Some (Fin d) \<Longrightarrow> v \<noteq> s
          \<Longrightarrow> \<exists>p. map_of (predecessors (bfs_start s ns)) v = Some (Some p)"
    by (simp add: P(1) split: if_splits)
  show "\<And>v. map_of (distances (bfs_start s ns)) v = Some Infinity
          \<Longrightarrow> map_of (predecessors (bfs_start s ns)) v = Some None"
    by (simp add: P(1,2) split: if_splits)
qed

lemma bfs_loop_total:
  assumes "bfs_inv s adj st"
  shows "\<exists>st'. bfs_loop adj st = Some st' \<and> bfs_inv s adj st'
            \<and> head st' = length (queue st')
            \<and> map fst (distances st') = map fst (distances st)
            \<and> map fst (predecessors st') = map fst (predecessors st)"
  using assms
proof (induction "card (inf_nodes st) + length (queue st) - head st" arbitrary: st rule: less_induct)
  case less
  show ?case
  proof (cases "head st < length (queue st)")
    case False
    have "head st \<le> length (queue st)" using bfs_invD(1)[OF less.prems] .
    then have "head st = length (queue st)" using False by simp
    moreover have "bfs_loop adj st = Some st" using False by (subst bfs_loop.simps) simp
    ultimately show ?thesis using less.prems by simp
  next
    case True
    note S = bfs_expand_step[OF less.prems True]
    from less.hyps[OF S[THEN conjunct2, THEN conjunct2, THEN conjunct2] S[THEN conjunct1]]
    obtain st' where r: "bfs_loop adj (bfs_expand adj st) = Some st'" "bfs_inv s adj st'"
      "head st' = length (queue st')"
      "map fst (distances st') = map fst (distances (bfs_expand adj st))"
      "map fst (predecessors st') = map fst (predecessors (bfs_expand adj st))"
      by blast
    have "bfs_loop adj st = Some st'" using True r(1) by (subst bfs_loop.simps) simp
    then show ?thesis
      using r S[THEN conjunct2, THEN conjunct1] S[THEN conjunct2, THEN conjunct2, THEN conjunct1]
      by simp
  qed
qed

lemma adj_push_keys: "fst ` set (adj_push k x adj) = fst ` set adj"
proof (cases "map_of adj k")
  case None then show ?thesis by (simp add: adj_push_def)
next
  case (Some xs)
  then have "k \<in> fst ` set adj" using map_of_eq_None_iff[of adj k] by auto
  then show ?thesis using Some dom_update[of k "xs @ [x]" adj] by (auto simp: adj_push_def)
qed

lemma adj_edge_keys: "fst ` set (adj_edge adj e) = fst ` set adj"
  by (simp add: adj_edge_def adj_push_keys)

lemma adj_edge_fold_keys: "fst ` set (foldl adj_edge adj es) = fst ` set adj"
  by (induction es arbitrary: adj) (simp_all add: adj_edge_keys)

lemma adj_init_fold_keys: "fst ` set (foldl adj_init adj ns) = fst ` set adj \<union> node_ids ns"
proof (induction ns arbitrary: adj)
  case Nil show ?case by (simp add: node_ids_def)
next
  case (Cons n ns)
  have "fst ` set (adj_init adj n) = insert (node_id n) (fst ` set adj)"
    using dom_update[of "node_id n" "[]" adj] by (simp add: adj_init_def)
  then show ?case using Cons.IH[of "adj_init adj n"] by (auto simp: node_ids_def)
qed

lemma buildAdjacency_keys: "fst ` set (buildAdjacency g) = node_ids (nodes g)"
  by (simp add: buildAdjacency_def adj_edge_fold_keys adj_init_fold_keys)

lemma adj_edges_src: "(u, v) \<in> adj_edges adj \<Longrightarrow> u \<in> fst ` set adj"
  using map_of_eq_None_iff[of adj u]
  by (auto simp: adj_edges_def neighbors_def split: option.splits)

lemma bfs_final_complete:
  assumes inv: "bfs_inv s adj st" and fin: "head st = length (queue st)"
      and keys: "fst ` set adj \<subseteq> fst ` set (distances st)"
  shows "(s, v) \<in> adj_edges adj ^^ k \<Longrightarrow> v \<in> fst ` set (distances st)
      \<Longrightarrow> \<exists>d\<le>k. map_of (distances st) v = Some (Fin d)"
proof (induction k arbitrary: v)
  case 0
  then have "v = s" by simp
  then show ?case using bfs_invD(5)[OF inv] by simp
next
  case (Suc k)
  from Suc.prems(1) obtain w where w: "(s, w) \<in> adj_edges adj ^^ k" "(w, v) \<in> adj_edges adj"
    by auto
  have wk: "w \<in> fst ` set (distances st)" using adj_edges_src[OF w(2)] keys by blast
  from Suc.IH[OF w(1) wk] obtain d where d: "d \<le> k" "map_of (distances st) w = Some (Fin d)"
    by blast
  have "w \<in> set (queue st)" using bfs_invD(2)[OF inv, of w] d(2) by blast
  then obtain i where i: "i < length (queue st)" "queue st ! i = w"
    by (auto simp: in_set_conv_nth)
  have vn: "v \<in> set (neighbors adj (queue st ! i))" using w(2) i(2) by (simp add: adj_edges_def)
  have "i < head st" using i(1) fin by simp
  from bfs_invD(8)[OF inv this vn Suc.prems(2)] obtain d' where
    d': "map_of (distances st) v = Some (Fin d')" "d' \<le> dval (distances st) (queue st ! i) + 1"
    by blast
  have "dval (distances st) w = d" using d(2) by (simp add: dval_def)
  then have "d' \<le> Suc k" using d' d(1) i(2) by simp
  then show ?case using d'(1) by blast
qed

lemma bfs_final_shortest:
  assumes inv: "bfs_inv s adj st" and fin: "head st = length (queue st)"
      and keys: "fst ` set adj \<subseteq> fst ` set (distances st)"
      and v: "v \<in> fst ` set (distances st)"
  shows "map_of (distances st) v = Some (Fin d) \<longleftrightarrow> shortest_path_length (adj_edges adj) s v d"
proof
  assume a: "map_of (distances st) v = Some (Fin d)"
  have p: "(s, v) \<in> adj_edges adj ^^ d" using bfs_invD(4)[OF inv a] .
  have "\<And>k. k < d \<Longrightarrow> (s, v) \<notin> adj_edges adj ^^ k"
  proof
    fix k assume k: "k < d" and "(s, v) \<in> adj_edges adj ^^ k"
    from bfs_final_complete[OF inv fin keys this(2) v] obtain d' where
      "d' \<le> k" "map_of (distances st) v = Some (Fin d')" by blast
    then show False using a k by simp
  qed
  then show "shortest_path_length (adj_edges adj) s v d"
    using p by (simp add: shortest_path_length_def)
next
  assume a: "shortest_path_length (adj_edges adj) s v d"
  then have p: "(s, v) \<in> adj_edges adj ^^ d" and m: "\<And>k. k < d \<Longrightarrow> (s, v) \<notin> adj_edges adj ^^ k"
    by (simp_all add: shortest_path_length_def)
  from bfs_final_complete[OF inv fin keys p v] obtain d' where
    d': "d' \<le> d" "map_of (distances st) v = Some (Fin d')" by blast
  have "(s, v) \<in> adj_edges adj ^^ d'" using bfs_invD(4)[OF inv d'(2)] .
  then have "\<not> d' < d" using m by blast
  then show "map_of (distances st) v = Some (Fin d)" using d' by simp
qed

lemma bfs_final_unreachable:
  assumes inv: "bfs_inv s adj st" and fin: "head st = length (queue st)"
      and keys: "fst ` set adj \<subseteq> fst ` set (distances st)"
      and v: "v \<in> fst ` set (distances st)"
  shows "map_of (distances st) v = Some Infinity \<longleftrightarrow> \<not> reachable (adj_edges adj) s v"
proof
  assume a: "map_of (distances st) v = Some Infinity"
  show "\<not> reachable (adj_edges adj) s v"
  proof
    assume "reachable (adj_edges adj) s v"
    then obtain k where "(s, v) \<in> adj_edges adj ^^ k"
      by (auto simp: reachable_def rtrancl_power)
    from bfs_final_complete[OF inv fin keys this v] show False using a by auto
  qed
next
  assume a: "\<not> reachable (adj_edges adj) s v"
  obtain x where x: "map_of (distances st) v = Some x"
    using v map_of_eq_None_iff[of "distances st" v] by auto
  show "map_of (distances st) v = Some Infinity"
  proof (cases x)
    case (Fin d)
    then have "(s, v) \<in> adj_edges adj ^^ d" using bfs_invD(4)[OF inv] x by simp
    then have "reachable (adj_edges adj) s v" by (auto simp: reachable_def rtrancl_power)
    then show ?thesis using a by simp
  next
    case Infinity then show ?thesis using x by simp
  next
    case NaN then show ?thesis using x bfs_invD(3)[OF inv, of v] by simp
  qed
qed

lemma bfs_run:
  "\<exists>st. bfs_loop adj (bfs_start s ns) = Some st
       \<and> bfs s adj ns = Some (distances st, predecessors st)
       \<and> bfs_inv s adj st \<and> head st = length (queue st)
       \<and> fst ` set (distances st) = insert s (node_ids ns)
       \<and> fst ` set (predecessors st) = node_ids ns
       \<and> distinct (map fst (distances st))
       \<and> distinct (map fst (predecessors st))"
proof -
  from bfs_loop_total[OF bfs_inv_start[of s adj ns]] obtain st where
    st: "bfs_loop adj (bfs_start s ns) = Some st" "bfs_inv s adj st" "head st = length (queue st)"
      "map fst (distances st) = map fst (distances (bfs_start s ns))"
      "map fst (predecessors st) = map fst (predecessors (bfs_start s ns))"
    by blast
  have b: "bfs s adj ns = Some (distances st, predecessors st)" using st(1) by (simp add: bfs_def)
  have k1: "fst ` set (distances st) = insert s (node_ids ns)"
    using st(4) bfs_start_props(3)[of s ns] by (metis list.set_map)
  have k2: "fst ` set (predecessors st) = node_ids ns"
    using st(5) bfs_start_props(4)[of s ns] by (metis list.set_map)
  have k3: "distinct (map fst (distances st))" using st(4) bfs_start_props(5)[of s ns] by simp
  have k4: "distinct (map fst (predecessors st))" using st(5) bfs_start_props(6)[of s ns] by simp
  show ?thesis using st(1,2,3) b k1 k2 k3 k4 by blast
qed

section \<open>Exact distances\<close>

text \<open>
  The relation \<open>adj_edges adj\<close> holds the pairs \<open>(u, v)\<close> with \<open>v\<close> in the neighbour array of
  \<open>u\<close>; a path of \<open>d\<close> edges from \<open>u\<close> to \<open>v\<close> is \<open>(u, v) \<in> adj_edges adj ^^ d\<close>.

  Claim C1. For every graph \<open>g\<close>, the adjacency mapping built from it, every start node and
  every node \<open>v\<close> of the graph, \<open>bfs\<close> returns, with distances \<open>D\<close> such that: the start node
  has distance 0; \<open>D v\<close> is the number \<open>d\<close> exactly when there is a path of \<open>d\<close> edges from the
  start to \<open>v\<close> and none with fewer; \<open>D v\<close> is \<open>Infinity\<close> exactly when \<open>v\<close> is unreachable from the
  start; and \<open>D v\<close> is one of the two.
\<close>

theorem bfs_exact_distances:
  assumes "v \<in> node_ids (nodes g)"
  shows "\<exists>D P. bfs start (buildAdjacency g) (nodes g) = Some (D, P)
          \<and> map_of D start = Some (Fin 0)
          \<and> (\<forall>d. map_of D v = Some (Fin d) \<longleftrightarrow> shortest_path_length (adj_edges (buildAdjacency g)) start v d)
          \<and> (map_of D v = Some Infinity \<longleftrightarrow> \<not> reachable (adj_edges (buildAdjacency g)) start v)
          \<and> (map_of D v = Some Infinity \<or> (\<exists>d. map_of D v = Some (Fin d)))"
proof -
  define adj where "adj = buildAdjacency g"
  from bfs_run[of adj start "nodes g"] obtain st where
    st: "bfs start adj (nodes g) = Some (distances st, predecessors st)"
      "bfs_inv start adj st" "head st = length (queue st)"
      "fst ` set (distances st) = insert start (node_ids (nodes g))"
    by blast
  have keys: "fst ` set adj \<subseteq> fst ` set (distances st)"
    using st(4) buildAdjacency_keys[of g] by (auto simp: adj_def)
  have v: "v \<in> fst ` set (distances st)" using assms st(4) by simp
  have 1: "map_of (distances st) start = Some (Fin 0)" using bfs_invD(5)[OF st(2)] .
  have 2: "\<forall>d. map_of (distances st) v = Some (Fin d) \<longleftrightarrow> shortest_path_length (adj_edges adj) start v d"
    using bfs_final_shortest[OF st(2,3) keys v] by blast
  have 3: "map_of (distances st) v = Some Infinity \<longleftrightarrow> \<not> reachable (adj_edges adj) start v"
    using bfs_final_unreachable[OF st(2,3) keys v] .
  obtain x where x: "map_of (distances st) v = Some x"
    using v map_of_eq_None_iff[of "distances st" v] by auto
  have 4: "map_of (distances st) v = Some Infinity \<or> (\<exists>d. map_of (distances st) v = Some (Fin d))"
    using x bfs_invD(3)[OF st(2), of v] by (cases x) auto
  show ?thesis using st(1) 1 2 3 4 unfolding adj_def by blast
qed

lemma ring_12_1_bfs:
  "bfs 0 (buildAdjacency (snd (generateRing 12 1))) (nodes (snd (generateRing 12 1))) =
     Some ([(0, Fin 0), (1, Fin 1), (2, Fin 2), (3, Fin 3), (4, Fin 4), (5, Fin 5), (6, Fin 6),
            (7, Fin 5), (8, Fin 4), (9, Fin 3), (10, Fin 2), (11, Fin 1)],
           [(0, None), (1, Some 0), (2, Some 1), (3, Some 2), (4, Some 3), (5, Some 4), (6, Some 5),
            (7, Some 8), (8, Some 9), (9, Some 10), (10, Some 11), (11, Some 0)])"
  by code_simp

lemma ring_12_1_node_6: "6 \<in> node_ids (nodes (snd (generateRing 12 1)))"
  by code_simp

theorem bfs_exact_distances_witness:
  "6 \<in> node_ids (nodes (snd (generateRing 12 1)))
   \<and> shortest_path_length (adj_edges (buildAdjacency (snd (generateRing 12 1)))) 0 6 6
   \<and> reachable (adj_edges (buildAdjacency (snd (generateRing 12 1)))) 0 6"
proof -
  from bfs_exact_distances[OF ring_12_1_node_6, of 0] obtain D P where
    r: "bfs 0 (buildAdjacency (snd (generateRing 12 1))) (nodes (snd (generateRing 12 1))) = Some (D, P)"
       "\<forall>d. map_of D 6 = Some (Fin d)
          \<longleftrightarrow> shortest_path_length (adj_edges (buildAdjacency (snd (generateRing 12 1)))) 0 6 d"
       "map_of D 6 = Some Infinity
          \<longleftrightarrow> \<not> reachable (adj_edges (buildAdjacency (snd (generateRing 12 1)))) 0 6"
    by blast
  have "map_of D 6 = Some (Fin 6)" using r(1) unfolding ring_12_1_bfs by auto
  then show ?thesis using r(2,3) ring_12_1_node_6 by auto
qed

section \<open>Path reconstruction from the predecessors of a search\<close>

lemma follows_predecessors_snoc:
  "follows_predecessors P (xs @ [x]) \<Longrightarrow> map_of P y = Some (Some x)
     \<Longrightarrow> follows_predecessors P (xs @ [x, y])"
proof (induction xs)
  case Nil then show ?case by simp
next
  case (Cons a xs)
  then show ?case by (cases xs) auto
qed

lemma is_path_snoc:
  "is_path E (xs @ [x]) \<Longrightarrow> (x, y) \<in> E \<Longrightarrow> is_path E (xs @ [x, y])"
proof (induction xs)
  case Nil then show ?case by simp
next
  case (Cons a xs)
  then show ?case by (cases xs) auto
qed

lemma bfs_inv_zero:
  assumes "bfs_inv s adj st" and "map_of (distances st) x = Some (Fin 0)"
  shows "x = s"
  using bfs_invD(4)[OF assms] by simp

lemma reconstructPath_loop_inv:
  assumes inv: "bfs_inv s adj st"
  shows "map_of (distances st) c = Some (Fin d) \<Longrightarrow> sf + d \<le> M
    \<Longrightarrow> \<exists>p. length p = d
          \<and> reconstructPath_loop s (predecessors st) M (c # rest, c, sf) = Some (p @ c # rest, s, sf + d)
          \<and> follows_predecessors (predecessors st) (p @ [c])
          \<and> is_path (adj_edges adj) (p @ [c])
          \<and> hd (p @ [c]) = s"
proof (induction d arbitrary: c rest sf)
  case 0
  have cs: "c = s" using bfs_inv_zero[OF inv 0(1)] .
  have "reconstructPath_loop s (predecessors st) M (c # rest, c, sf) = Some (c # rest, s, sf)"
    using cs by (subst reconstructPath_loop.simps) simp
  then show ?case using cs by simp
next
  case (Suc d)
  have cs: "c \<noteq> s"
    using Suc.prems(1) bfs_invD(5)[OF inv] by auto
  from bfs_invD(10)[OF inv Suc.prems(1) cs] obtain p0 where
    p0: "map_of (predecessors st) c = Some (Some p0)" by blast
  from bfs_invD(9)[OF inv p0] obtain k where
    e: "(p0, c) \<in> adj_edges adj" and k: "map_of (distances st) p0 = Some (Fin k)"
      "map_of (distances st) c = Some (Fin (k + 1))" by blast
  have kd: "k = d" using k(2) Suc.prems(1) by simp
  have sfM: "sf < M" using Suc.prems(2) by simp
  have step: "reconstructPath_loop s (predecessors st) M (c # rest, c, sf)
      = reconstructPath_loop s (predecessors st) M (p0 # c # rest, p0, sf + 1)"
    using cs sfM p0 by (subst reconstructPath_loop.simps) simp
  have "sf + 1 + d \<le> M" using Suc.prems(2) by simp
  from Suc.IH[OF k(1)[unfolded kd] this, of "c # rest"] obtain p where
    p: "length p = d"
       "reconstructPath_loop s (predecessors st) M (p0 # c # rest, p0, sf + 1)
          = Some (p @ p0 # c # rest, s, sf + 1 + d)"
       "follows_predecessors (predecessors st) (p @ [p0])"
       "is_path (adj_edges adj) (p @ [p0])"
       "hd (p @ [p0]) = s"
    by blast
  have 1: "length (p @ [p0]) = Suc d" using p(1) by simp
  have 2: "reconstructPath_loop s (predecessors st) M (c # rest, c, sf)
      = Some ((p @ [p0]) @ c # rest, s, sf + Suc d)"
    unfolding step p(2) by simp
  have 3: "follows_predecessors (predecessors st) ((p @ [p0]) @ [c])"
    using follows_predecessors_snoc[OF p(3) p0] by simp
  have 4: "is_path (adj_edges adj) ((p @ [p0]) @ [c])"
    using is_path_snoc[OF p(4) e] by simp
  have 5: "hd ((p @ [p0]) @ [c]) = s" using p(5) by (cases p) auto
  show ?case using 1 2 3 4 5 by blast
qed

lemma bfs_inv_level_below:
  assumes inv: "bfs_inv s adj st"
  shows "map_of (distances st) x = Some (Fin d) \<Longrightarrow> j \<le> d
     \<Longrightarrow> \<exists>y. map_of (distances st) y = Some (Fin j)"
proof (induction d arbitrary: x)
  case 0 then show ?case by auto
next
  case (Suc d)
  show ?case
  proof (cases "j = Suc d")
    case True then show ?thesis using Suc.prems(1) by blast
  next
    case False
    then have jd: "j \<le> d" using Suc.prems(2) by simp
    have xs: "x \<noteq> s" using Suc.prems(1) bfs_invD(5)[OF inv] by auto
    from bfs_invD(10)[OF inv Suc.prems(1) xs] obtain p where
      p: "map_of (predecessors st) x = Some (Some p)" by blast
    from bfs_invD(9)[OF inv p] obtain k where
      "map_of (distances st) p = Some (Fin k)" "map_of (distances st) x = Some (Fin (k + 1))" by blast
    then have "map_of (distances st) p = Some (Fin d)" using Suc.prems(1) by simp
    from Suc.IH[OF this jd] show ?thesis .
  qed
qed

lemma bfs_inv_dist_le_size:
  assumes inv: "bfs_inv s adj st" and x: "map_of (distances st) x = Some (Fin d)"
  shows "d \<le> length (predecessors st)"
proof -
  define K where "K = fst ` set (predecessors st)"
  have sub: "{1..d} \<subseteq> dval (distances st) ` K"
  proof
    fix j assume "j \<in> {1..d}"
    then have j: "1 \<le> j" "j \<le> d" by simp_all
    from bfs_inv_level_below[OF inv x j(2)] obtain y where
      y: "map_of (distances st) y = Some (Fin j)" by blast
    have "y \<noteq> s" using y j(1) bfs_invD(5)[OF inv] by auto
    from bfs_invD(10)[OF inv y this] obtain p where "map_of (predecessors st) y = Some (Some p)"
      by blast
    then have "y \<in> K" using map_of_eq_None_iff[of "predecessors st" y] unfolding K_def by auto
    moreover have "dval (distances st) y = j" using y by (simp add: dval_def)
    ultimately show "j \<in> dval (distances st) ` K" by blast
  qed
  have fin: "finite (dval (distances st) ` K)" by (simp add: K_def)
  have "d = card {1..d}" by simp
  also have "\<dots> \<le> card (dval (distances st) ` K)" by (rule card_mono[OF fin sub])
  also have "\<dots> \<le> card K" by (simp add: card_image_le K_def)
  also have "\<dots> \<le> length (predecessors st)"
    unfolding K_def by (metis card_length length_map list.set_map)
  finally show ?thesis .
qed

lemma reconstructPath_bfs_inv:
  assumes inv: "bfs_inv s adj st" and x: "map_of (distances st) t = Some (Fin d)"
  shows "\<exists>path. reconstructPath s t (predecessors st) = Some path
      \<and> length path = d + 1 \<and> hd path = s \<and> last path = t
      \<and> follows_predecessors (predecessors st) path
      \<and> is_path (adj_edges adj) path"
proof -
  have "0 + d \<le> length (predecessors st)" using bfs_inv_dist_le_size[OF inv x] by simp
  from reconstructPath_loop_inv[OF inv x this, of "[]"] obtain p where
    p: "length p = d"
       "reconstructPath_loop s (predecessors st) (length (predecessors st)) ([t], t, 0) = Some (p @ [t], s, 0 + d)"
       "follows_predecessors (predecessors st) (p @ [t])"
       "is_path (adj_edges adj) (p @ [t])"
       "hd (p @ [t]) = s"
    by blast
  have "reconstructPath s t (predecessors st) = Some (p @ [t])"
    unfolding reconstructPath_def p(2) by simp
  then show ?thesis using p by simp
qed

text \<open>
  Claim C2. For the predecessor map \<open>P\<close> that \<open>bfs\<close> returns from a source over the adjacency
  built from a graph, and every node \<open>tgt\<close> of the graph reachable from the source,
  \<open>reconstructPath\<close> does not fail (it returns a path, not \<open>null\<close>): the path starts at the
  source, ends at the target, each element is the predecessor of the next one, consecutive
  elements are adjacent, and its length is the distance of the target plus one, where that
  distance is the length of a shortest path. On the ring of 12 nodes with skip 1, the path from
  node 0 to node 6 has exactly 7 nodes.
\<close>

theorem reconstructPath_of_bfs:
  "(\<forall>g src tgt. tgt \<in> node_ids (nodes g) \<and> reachable (adj_edges (buildAdjacency g)) src tgt \<longrightarrow>
      (\<exists>D P path d. bfs src (buildAdjacency g) (nodes g) = Some (D, P)
         \<and> reconstructPath src tgt P = Some path
         \<and> map_of D tgt = Some (Fin d)
         \<and> shortest_path_length (adj_edges (buildAdjacency g)) src tgt d
         \<and> length path = d + 1 \<and> hd path = src \<and> last path = tgt
         \<and> follows_predecessors P path
         \<and> is_path (adj_edges (buildAdjacency g)) path))
   \<and> (\<exists>D P path. bfs 0 (buildAdjacency (snd (generateRing 12 1))) (nodes (snd (generateRing 12 1))) = Some (D, P)
         \<and> reconstructPath 0 6 P = Some path \<and> length path = 7)"
proof (intro conjI allI impI)
  fix g src tgt
  assume a: "tgt \<in> node_ids (nodes g) \<and> reachable (adj_edges (buildAdjacency g)) src tgt"
  define adj where "adj = buildAdjacency g"
  from bfs_run[of adj src "nodes g"] obtain st where
    st: "bfs src adj (nodes g) = Some (distances st, predecessors st)"
      "bfs_inv src adj st" "head st = length (queue st)"
      "fst ` set (distances st) = insert src (node_ids (nodes g))"
    by blast
  have keys: "fst ` set adj \<subseteq> fst ` set (distances st)"
    using st(4) buildAdjacency_keys[of g] by (auto simp: adj_def)
  have v: "tgt \<in> fst ` set (distances st)" using a st(4) by simp
  have ni: "map_of (distances st) tgt \<noteq> Some Infinity"
    using bfs_final_unreachable[OF st(2,3) keys v] a unfolding adj_def by simp
  obtain x where x: "map_of (distances st) tgt = Some x"
    using v map_of_eq_None_iff[of "distances st" tgt] by auto
  obtain d where d: "map_of (distances st) tgt = Some (Fin d)"
    using x ni bfs_invD(3)[OF st(2), of tgt] by (cases x) auto
  have sh: "shortest_path_length (adj_edges adj) src tgt d"
    using bfs_final_shortest[OF st(2,3) keys v] d by blast
  from reconstructPath_bfs_inv[OF st(2) d] obtain path where
    "reconstructPath src tgt (predecessors st) = Some path"
    "length path = d + 1" "hd path = src" "last path = tgt"
    "follows_predecessors (predecessors st) path" "is_path (adj_edges adj) path"
    by blast
  then show "\<exists>D P path d. bfs src (buildAdjacency g) (nodes g) = Some (D, P)
         \<and> reconstructPath src tgt P = Some path
         \<and> map_of D tgt = Some (Fin d)
         \<and> shortest_path_length (adj_edges (buildAdjacency g)) src tgt d
         \<and> length path = d + 1 \<and> hd path = src \<and> last path = tgt
         \<and> follows_predecessors P path
         \<and> is_path (adj_edges (buildAdjacency g)) path"
    using st(1) d sh unfolding adj_def by blast
next
  have "reconstructPath 0 6 [(0, None), (1, Some 0), (2, Some 1), (3, Some 2), (4, Some 3), (5, Some 4), (6, Some 5),
            (7, Some 8), (8, Some 9), (9, Some 10), (10, Some 11), (11, Some 0)] = Some [0, 1, 2, 3, 4, 5, 6]"
    by code_simp
  then show "\<exists>D P path. bfs 0 (buildAdjacency (snd (generateRing 12 1))) (nodes (snd (generateRing 12 1))) = Some (D, P)
         \<and> reconstructPath 0 6 P = Some path \<and> length path = 7"
    unfolding ring_12_1_bfs by simp
qed

lemma ring_12_1_node_3: "3 \<in> node_ids (nodes (snd (generateRing 12 1)))"
  by code_simp

theorem reconstructPath_of_bfs_witness:
  "3 \<in> node_ids (nodes (snd (generateRing 12 1)))
   \<and> reachable (adj_edges (buildAdjacency (snd (generateRing 12 1)))) 0 3
   \<and> reconstructPath 0 3 [(0, None), (1, Some 0), (2, Some 1), (3, Some 2), (4, Some 3), (5, Some 4),
        (6, Some 5), (7, Some 8), (8, Some 9), (9, Some 10), (10, Some 11), (11, Some 0)] = Some [0, 1, 2, 3]
   \<and> is_path (adj_edges (buildAdjacency (snd (generateRing 12 1)))) [0, 1, 2, 3]
   \<and> shortest_path_length (adj_edges (buildAdjacency (snd (generateRing 12 1)))) 0 3 3"
proof -
  let ?g = "snd (generateRing 12 1)"
  let ?P = "[(0::nat, None), (1, Some (0::nat)), (2, Some 1), (3, Some 2), (4, Some 3), (5, Some 4),
        (6, Some 5), (7, Some 8), (8, Some 9), (9, Some 10), (10, Some 11), (11, Some 0)]"
  from bfs_exact_distances[OF ring_12_1_node_3, of 0] obtain D0 P0 where
    r0: "bfs 0 (buildAdjacency ?g) (nodes ?g) = Some (D0, P0)"
        "map_of D0 3 = Some Infinity \<longleftrightarrow> \<not> reachable (adj_edges (buildAdjacency ?g)) 0 3"
    by blast
  have "map_of D0 3 = Some (Fin 3)" using r0(1) unfolding ring_12_1_bfs by auto
  then have re: "reachable (adj_edges (buildAdjacency ?g)) 0 3" using r0(2) by auto
  from reconstructPath_of_bfs[THEN conjunct1, rule_format, of 3 ?g 0] ring_12_1_node_3 re
  obtain D P path d where
    r: "bfs 0 (buildAdjacency ?g) (nodes ?g) = Some (D, P)"
       "reconstructPath 0 3 P = Some path"
       "map_of D 3 = Some (Fin d)"
       "shortest_path_length (adj_edges (buildAdjacency ?g)) 0 3 d"
       "is_path (adj_edges (buildAdjacency ?g)) path"
    by blast
  have P: "P = ?P" and D3: "map_of D 3 = Some (Fin 3)" using r(1) unfolding ring_12_1_bfs by auto
  have pe: "reconstructPath 0 3 ?P = Some [0, 1, 2, 3]" by code_simp
  have "path = [0, 1, 2, 3]" using r(2) unfolding P pe by simp
  moreover have "d = 3" using r(3) D3 by simp
  ultimately show ?thesis using ring_12_1_node_3 re pe r(4,5) by simp
qed

section \<open>Metrics: adjacency and scans\<close>

subsection \<open>The adjacency of a graph\<close>

lemma adj_init_fold_map_of:
  "map_of (foldl adj_init adj ns) u = (if u \<in> node_ids ns then Some [] else map_of adj u)"
proof (induction ns arbitrary: adj)
  case Nil show ?case by (simp add: node_ids_def)
next
  case (Cons n ns)
  have "map_of (adj_init adj n) = (map_of adj)(node_id n \<mapsto> [])"
    by (simp add: adj_init_def update_conv')
  then show ?case using Cons.IH[of "adj_init adj n"] by (auto simp: node_ids_def)
qed

lemma neighbors_adj_push:
  "neighbors (adj_push k x adj) u
     = (if u = k \<and> k \<in> fst ` set adj then neighbors adj u @ [x] else neighbors adj u)"
proof (cases "map_of adj k")
  case None
  then have "k \<notin> fst ` set adj" using map_of_eq_None_iff[of adj k] by simp
  then show ?thesis using None by (simp add: adj_push_def)
next
  case (Some xs)
  then have "k \<in> fst ` set adj" using map_of_eq_None_iff[of adj k] by auto
  then show ?thesis using Some by (simp add: adj_push_def neighbors_def update_conv')
qed

lemma neighbors_adj_edge:
  "set (neighbors (adj_edge adj e) u)
     = set (neighbors adj u)
       \<union> {v. u \<in> fst ` set adj \<and> ((source e = u \<and> target e = v) \<or> (target e = u \<and> source e = v))}"
  by (auto simp: adj_edge_def neighbors_adj_push adj_push_keys)

lemma neighbors_adj_edge_fold:
  "set (neighbors (foldl adj_edge adj es) u)
     = set (neighbors adj u)
       \<union> {v. u \<in> fst ` set adj
            \<and> (\<exists>e\<in>set es. (source e = u \<and> target e = v) \<or> (target e = u \<and> source e = v))}"
proof (induction es arbitrary: adj)
  case Nil show ?case by simp
next
  case (Cons e es)
  show ?case
    unfolding foldl_Cons Cons.IH[of "adj_edge adj e"] neighbors_adj_edge adj_edge_keys
    by auto
qed

lemma adj_edges_buildAdjacency:
  "(u, v) \<in> adj_edges (buildAdjacency g) \<longleftrightarrow>
     u \<in> node_ids (nodes g)
     \<and> (\<exists>e\<in>set (edges g). (source e = u \<and> target e = v) \<or> (target e = u \<and> source e = v))"
proof -
  have "neighbors (foldl adj_init [] (nodes g)) u = []"
    by (simp add: neighbors_def adj_init_fold_map_of)
  then show ?thesis
    unfolding adj_edges_def buildAdjacency_def
    using neighbors_adj_edge_fold[of "foldl adj_init [] (nodes g)" "edges g" u]
    by (simp add: adj_init_fold_keys)
qed

lemma adj_edges_sym_nodes:
  assumes "(u, v) \<in> adj_edges (buildAdjacency g)" and "v \<in> node_ids (nodes g)"
  shows "(v, u) \<in> adj_edges (buildAdjacency g)"
  using assms unfolding adj_edges_buildAdjacency by blast

lemma reachable_sym_nodes:
  assumes "reachable (adj_edges (buildAdjacency g)) a b" and "b \<in> node_ids (nodes g)"
  shows "reachable (adj_edges (buildAdjacency g)) b a"
proof -
  define E where "E = adj_edges (buildAdjacency g)"
  have "(a, b) \<in> E\<^sup>*" using assms(1) by (simp add: reachable_def E_def)
  then have "b \<in> node_ids (nodes g) \<longrightarrow> (b, a) \<in> E\<^sup>*"
  proof (induction rule: rtrancl_induct)
    case base show ?case by simp
  next
    case (step y z)
    show ?case
    proof
      assume z: "z \<in> node_ids (nodes g)"
      have y: "y \<in> node_ids (nodes g)"
        using step.hyps(2) unfolding E_def adj_edges_buildAdjacency by blast
      have "(z, y) \<in> E" using adj_edges_sym_nodes[OF step.hyps(2)[unfolded E_def] z] by (simp add: E_def)
      moreover have "(y, a) \<in> E\<^sup>*" using step.IH y by blast
      ultimately show "(z, a) \<in> E\<^sup>*" by (rule converse_rtrancl_into_rtrancl)
    qed
  qed
  then show ?thesis using assms(2) by (simp add: reachable_def E_def)
qed

lemma reachable_trans:
  "reachable E a b \<Longrightarrow> reachable E b c \<Longrightarrow> reachable E a c"
  by (simp add: reachable_def)

subsection \<open>The scan of one distance map\<close>

lemma metrics_scan:
  assumes "\<forall>kv\<in>set D. snd kv \<noteq> NaN" and "currentMax ms = Fin m"
  shows "reachableCount (foldl metrics_dist ms D) = reachableCount ms + length (fin_vals D)
       \<and> totalPathLengthSum (foldl metrics_dist ms D) = totalPathLengthSum ms + sum_list (fin_vals D)
       \<and> reachablePairsCount (foldl metrics_dist ms D)
           = reachablePairsCount ms + length (filter (\<lambda>d. 0 < d) (fin_vals D))
       \<and> currentMax (foldl metrics_dist ms D) = Fin (foldl max m (fin_vals D))
       \<and> maxDistance (foldl metrics_dist ms D) = maxDistance ms
       \<and> connectedFlag (foldl metrics_dist ms D) = connectedFlag ms
       \<and> nodesInFirstComponent (foldl metrics_dist ms D) = nodesInFirstComponent ms"
  using assms
proof (induction D arbitrary: ms m)
  case Nil then show ?case by simp
next
  case (Cons kv D)
  obtain k v where kv: "kv = (k, v)" by (cases kv)
  have nn: "\<forall>kv\<in>set D. snd kv \<noteq> NaN" using Cons.prems(1) by simp
  show ?case
  proof (cases v)
    case (Fin d)
    define ms1 where "ms1 = metrics_dist ms kv"
    have c: "currentMax ms1 = Fin (max m d)"
      using Cons.prems(2) by (simp add: ms1_def metrics_dist_def kv Fin Let_def)
    have f: "reachableCount ms1 = reachableCount ms + 1"
      "totalPathLengthSum ms1 = totalPathLengthSum ms + d"
      "reachablePairsCount ms1 = reachablePairsCount ms + (if 0 < d then 1 else 0)"
      "maxDistance ms1 = maxDistance ms" "connectedFlag ms1 = connectedFlag ms"
      "nodesInFirstComponent ms1 = nodesInFirstComponent ms"
      by (simp_all add: ms1_def metrics_dist_def kv Fin Let_def)
    have fe: "foldl metrics_dist ms (kv # D) = foldl metrics_dist ms1 D" by (simp add: ms1_def)
    have fv: "fin_vals (kv # D) = d # fin_vals D" by (simp add: kv Fin)
    show ?thesis
      unfolding fe fv using Cons.IH[OF nn c] f by simp
  next
    case Infinity
    have fe: "foldl metrics_dist ms (kv # D) = foldl metrics_dist ms D"
      by (simp add: metrics_dist_def kv Infinity)
    have fv: "fin_vals (kv # D) = fin_vals D" by (simp add: kv Infinity)
    show ?thesis unfolding fe fv using Cons.IH[OF nn Cons.prems(2)] by simp
  next
    case NaN
    then show ?thesis using Cons.prems(1) kv by simp
  qed
qed

lemma length_fin_vals_le: "length (fin_vals D) \<le> length D"
  by (induction D rule: fin_vals.induct) auto

lemma fin_vals_all_finite:
  "length (fin_vals D) = length D \<Longrightarrow> (k, v) \<in> set D \<Longrightarrow> \<exists>d. v = Fin d"
proof (induction D rule: fin_vals.induct)
  case 1 then show ?case by simp
next
  case (2 k' d D) then show ?case by auto
next
  case (3 k' D)
  then show ?case using length_fin_vals_le[of D] by simp
next
  case (4 k' D)
  then show ?case using length_fin_vals_le[of D] by simp
qed

section \<open>Connectivity as the metrics report it\<close>

lemma bfs_on_graph:
  assumes a: "a \<in> node_ids (nodes g)"
  shows "\<exists>D P. bfs a (buildAdjacency g) (nodes g) = Some (D, P)
      \<and> distinct (map fst D)
      \<and> fst ` set D = node_ids (nodes g)
      \<and> (\<forall>kv\<in>set D. snd kv \<noteq> NaN)
      \<and> (\<forall>k d. (k, Fin d) \<in> set D \<longleftrightarrow>
            k \<in> node_ids (nodes g) \<and> shortest_path_length (adj_edges (buildAdjacency g)) a k d)
      \<and> (\<forall>k. (k, Infinity) \<in> set D \<longleftrightarrow>
            k \<in> node_ids (nodes g) \<and> \<not> reachable (adj_edges (buildAdjacency g)) a k)"
proof -
  define adj where "adj = buildAdjacency g"
  from bfs_run[of adj a "nodes g"] obtain st where
    st: "bfs a adj (nodes g) = Some (distances st, predecessors st)"
      "bfs_inv a adj st" "head st = length (queue st)"
      "fst ` set (distances st) = insert a (node_ids (nodes g))"
      "distinct (map fst (distances st))"
    by blast
  define D where "D = distances st"
  have ks: "fst ` set D = node_ids (nodes g)" using st(4) a by (auto simp: D_def)
  have dk: "distinct (map fst D)" using st(5) by (simp add: D_def)
  have keys: "fst ` set adj \<subseteq> fst ` set (distances st)"
    using st(4) buildAdjacency_keys[of g] by (auto simp: adj_def)
  have mem: "\<And>k v. (k, v) \<in> set D \<longleftrightarrow> map_of D k = Some v"
    using dk by simp
  have nn: "\<forall>kv\<in>set D. snd kv \<noteq> NaN"
  proof
    fix kv assume "kv \<in> set D"
    then have "map_of D (fst kv) = Some (snd kv)" using mem[of "fst kv" "snd kv"] by simp
    then show "snd kv \<noteq> NaN" using bfs_invD(3)[OF st(2), of "fst kv"] by (auto simp: D_def)
  qed
  have inD: "\<And>k v. map_of D k = Some v \<Longrightarrow> k \<in> node_ids (nodes g)"
  proof -
    fix k v assume "map_of D k = Some v"
    then have "k \<in> fst ` set D" using map_of_eq_None_iff[of D k] by auto
    then show "k \<in> node_ids (nodes g)" using ks by simp
  qed
  have f: "\<forall>k d. (k, Fin d) \<in> set D \<longleftrightarrow>
            k \<in> node_ids (nodes g) \<and> shortest_path_length (adj_edges adj) a k d"
  proof (intro allI iffI)
    fix k d assume "(k, Fin d) \<in> set D"
    then have m: "map_of D k = Some (Fin d)" using mem by blast
    have k: "k \<in> node_ids (nodes g)" using inD[OF m] .
    then have "k \<in> fst ` set (distances st)" using st(4) by simp
    from bfs_final_shortest[OF st(2,3) keys this, of d] m k
    show "k \<in> node_ids (nodes g) \<and> shortest_path_length (adj_edges adj) a k d"
      by (simp add: D_def)
  next
    fix k d assume h: "k \<in> node_ids (nodes g) \<and> shortest_path_length (adj_edges adj) a k d"
    then have "k \<in> fst ` set (distances st)" using st(4) by simp
    from bfs_final_shortest[OF st(2,3) keys this, of d] h
    have "map_of D k = Some (Fin d)" by (simp add: D_def)
    then show "(k, Fin d) \<in> set D" using mem by blast
  qed
  have i: "\<forall>k. (k, Infinity) \<in> set D \<longleftrightarrow>
            k \<in> node_ids (nodes g) \<and> \<not> reachable (adj_edges adj) a k"
  proof (intro allI iffI)
    fix k assume "(k, Infinity) \<in> set D"
    then have m: "map_of D k = Some Infinity" using mem by blast
    have k: "k \<in> node_ids (nodes g)" using inD[OF m] .
    then have "k \<in> fst ` set (distances st)" using st(4) by simp
    from bfs_final_unreachable[OF st(2,3) keys this] m k
    show "k \<in> node_ids (nodes g) \<and> \<not> reachable (adj_edges adj) a k"
      by (simp add: D_def)
  next
    fix k assume h: "k \<in> node_ids (nodes g) \<and> \<not> reachable (adj_edges adj) a k"
    then have "k \<in> fst ` set (distances st)" using st(4) by simp
    from bfs_final_unreachable[OF st(2,3) keys this] h
    have "map_of D k = Some Infinity" by (simp add: D_def)
    then show "(k, Infinity) \<in> set D" using mem by blast
  qed
  show ?thesis
    using st(1) dk ks nn f i unfolding D_def[symmetric] adj_def by blast
qed

lemma shortest_path_length_reachable:
  "shortest_path_length E a b d \<Longrightarrow> reachable E a b"
  by (auto simp: shortest_path_length_def reachable_def rtrancl_power)

lemma node_ids_nth: "i < length ns \<Longrightarrow> node_id (ns ! i) \<in> node_ids ns"
  by (simp add: node_ids_def)

lemma card_node_ids_le: "card (node_ids ns) \<le> length ns"
  unfolding node_ids_def by (metis card_length length_map list.set_map)

lemma card_node_ids_distinct:
  "card (node_ids ns) = length ns \<longleftrightarrow> distinct (map node_id ns)"
  unfolding node_ids_def by (metis card_distinct distinct_card length_map list.set_map)

lemma full_scan_connected:
  assumes a: "a \<in> node_ids (nodes g)"
      and b: "bfs a (buildAdjacency g) (nodes g) = Some (D, P)"
      and n: "length (nodes g) \<le> length (fin_vals D)"
  shows "connected_graph g \<and> distinct (map node_id (nodes g))"
proof -
  define E where "E = adj_edges (buildAdjacency g)"
  from bfs_on_graph[OF a] b have
    dk: "distinct (map fst D)" and ks: "fst ` set D = node_ids (nodes g)"
    and f: "\<And>k d. (k, Fin d) \<in> set D \<longleftrightarrow>
            k \<in> node_ids (nodes g) \<and> shortest_path_length E a k d"
    unfolding E_def by auto
  have "length D = card (node_ids (nodes g))"
    using dk ks by (metis distinct_card length_map list.set_map)
  then have le: "length D \<le> length (nodes g)" using card_node_ids_le[of "nodes g"] by simp
  have eq: "length (fin_vals D) = length D"
    using n le length_fin_vals_le[of D] by simp
  have "card (node_ids (nodes g)) = length (nodes g)"
    using \<open>length D = card (node_ids (nodes g))\<close> n le eq by simp
  then have di: "distinct (map node_id (nodes g))" using card_node_ids_distinct by blast
  have r: "\<And>k. k \<in> node_ids (nodes g) \<Longrightarrow> reachable E a k"
  proof -
    fix k assume "k \<in> node_ids (nodes g)"
    then obtain v where kv: "(k, v) \<in> set D" using ks by force
    from fin_vals_all_finite[OF eq kv] obtain d where "v = Fin d" by blast
    then have "shortest_path_length E a k d" using kv f by blast
    then show "reachable E a k" by (rule shortest_path_length_reachable)
  qed
  have "connected_graph g"
    unfolding connected_graph_def E_def[symmetric]
  proof (intro ballI)
    fix x y assume x: "x \<in> node_ids (nodes g)" and y: "y \<in> node_ids (nodes g)"
    have "reachable E x a" using reachable_sym_nodes[OF r[OF x, unfolded E_def] x] by (simp add: E_def)
    then show "reachable E x y" using r[OF y] reachable_trans by blast
  qed
  then show ?thesis using di by simp
qed

lemma metrics_source_facts:
  assumes b: "bfs (node_id (nodes g ! i)) adj (nodes g) = Some (D, P)"
      and nn: "\<forall>kv\<in>set D. snd kv \<noteq> NaN"
  shows "\<exists>ms'. metrics_source g adj ms i = Some ms'
     \<and> connectedFlag ms' = (connectedFlag ms \<and>
          (if i = 0 then \<not> length (fin_vals D) < length (nodes g)
           else length (fin_vals D) = nodesInFirstComponent ms))
     \<and> nodesInFirstComponent ms' = (if i = 0 then length (fin_vals D) else nodesInFirstComponent ms)
     \<and> totalPathLengthSum ms' = totalPathLengthSum ms + sum_list (fin_vals D)
     \<and> reachablePairsCount ms' = reachablePairsCount ms + length (filter (\<lambda>d. 0 < d) (fin_vals D))
     \<and> maxDistance ms' = js_max (maxDistance ms) (Fin (foldl max 0 (fin_vals D)))"
proof -
  define ms0 where "ms0 = ms\<lparr>currentMax := Fin 0, reachableCount := 0\<rparr>"
  define ms1 where "ms1 = foldl metrics_dist ms0 D"
  define ms2 where "ms2 = metrics_check (length (nodes g)) i ms1"
  define ms3 where "ms3 = ms2\<lparr>maxDistance := js_max (maxDistance ms2) (currentMax ms2)\<rparr>"
  have c0: "currentMax ms0 = Fin 0" by (simp add: ms0_def)
  note S = metrics_scan[OF nn c0, folded ms1_def]
  have s1: "reachableCount ms1 = length (fin_vals D)"
    using S[THEN conjunct1] by (simp add: ms0_def)
  have s2: "totalPathLengthSum ms1 = totalPathLengthSum ms + sum_list (fin_vals D)"
    using S[THEN conjunct2, THEN conjunct1] by (simp add: ms0_def)
  have s3: "reachablePairsCount ms1 = reachablePairsCount ms + length (filter (\<lambda>d. 0 < d) (fin_vals D))"
    using S[THEN conjunct2, THEN conjunct2, THEN conjunct1] by (simp add: ms0_def)
  have s4: "currentMax ms1 = Fin (foldl max 0 (fin_vals D))"
    using S[THEN conjunct2, THEN conjunct2, THEN conjunct2, THEN conjunct1] .
  have s5: "maxDistance ms1 = maxDistance ms"
    using S[THEN conjunct2, THEN conjunct2, THEN conjunct2, THEN conjunct2, THEN conjunct1]
    by (simp add: ms0_def)
  have s6: "connectedFlag ms1 = connectedFlag ms"
    using S[THEN conjunct2, THEN conjunct2, THEN conjunct2, THEN conjunct2, THEN conjunct2, THEN conjunct1]
    by (simp add: ms0_def)
  have s7: "nodesInFirstComponent ms1 = nodesInFirstComponent ms"
    using S[THEN conjunct2, THEN conjunct2, THEN conjunct2, THEN conjunct2, THEN conjunct2, THEN conjunct2]
    by (simp add: ms0_def)
  have t1: "connectedFlag ms2 = (connectedFlag ms \<and>
          (if i = 0 then \<not> length (fin_vals D) < length (nodes g)
           else length (fin_vals D) = nodesInFirstComponent ms))"
    using s1 s6 s7 by (auto simp: ms2_def metrics_check_def Let_def)
  have t2: "nodesInFirstComponent ms2 = (if i = 0 then length (fin_vals D) else nodesInFirstComponent ms)"
    using s1 s7 by (auto simp: ms2_def metrics_check_def Let_def)
  have t3: "totalPathLengthSum ms2 = totalPathLengthSum ms1"
    "reachablePairsCount ms2 = reachablePairsCount ms1"
    "maxDistance ms2 = maxDistance ms1" "currentMax ms2 = currentMax ms1"
    by (auto simp: ms2_def metrics_check_def Let_def)
  have r: "metrics_source g adj ms i = Some ms3"
    using b by (simp add: metrics_source_def Let_def ms3_def ms2_def ms1_def ms0_def)
  have u: "connectedFlag ms3 = connectedFlag ms2" "nodesInFirstComponent ms3 = nodesInFirstComponent ms2"
    "totalPathLengthSum ms3 = totalPathLengthSum ms2" "reachablePairsCount ms3 = reachablePairsCount ms2"
    "maxDistance ms3 = js_max (maxDistance ms2) (currentMax ms2)"
    by (simp_all add: ms3_def)
  show ?thesis
    using r u t1 t2 t3 s2 s3 s4 s5 by simp
qed

lemma metrics_source_returns:
  assumes "i < length (nodes g)"
  shows "\<exists>ms' D P. bfs (node_id (nodes g ! i)) (buildAdjacency g) (nodes g) = Some (D, P)
     \<and> metrics_source g (buildAdjacency g) ms i = Some ms'
     \<and> (connectedFlag ms' \<longrightarrow> connectedFlag ms)
     \<and> (i = 0 \<and> connectedFlag ms' \<longrightarrow> length (nodes g) \<le> length (fin_vals D))"
proof -
  have a: "node_id (nodes g ! i) \<in> node_ids (nodes g)" using assms by (rule node_ids_nth)
  from bfs_on_graph[OF a] obtain D P where
    b: "bfs (node_id (nodes g ! i)) (buildAdjacency g) (nodes g) = Some (D, P)"
    and nn: "\<forall>kv\<in>set D. snd kv \<noteq> NaN" by blast
  from metrics_source_facts[OF b nn, of ms] obtain ms' where
    "metrics_source g (buildAdjacency g) ms i = Some ms'"
    "connectedFlag ms' = (connectedFlag ms \<and>
          (if i = 0 then \<not> length (fin_vals D) < length (nodes g)
           else length (fin_vals D) = nodesInFirstComponent ms))"
    by blast
  then show ?thesis using b by auto
qed

lemma metrics_loop_returns:
  assumes "\<forall>i\<in>set is. i < length (nodes g)"
  shows "\<exists>ms'. metrics_loop g (buildAdjacency g) ms is = Some ms'
           \<and> (connectedFlag ms' \<longrightarrow> connectedFlag ms)"
  using assms
proof (induction "is" arbitrary: ms)
  case Nil show ?case by simp
next
  case (Cons i "is")
  have "i < length (nodes g)" using Cons.prems by simp
  from metrics_source_returns[OF this, of ms] obtain ms1 where
    m: "metrics_source g (buildAdjacency g) ms i = Some ms1" "connectedFlag ms1 \<longrightarrow> connectedFlag ms"
    by blast
  have "\<forall>i\<in>set is. i < length (nodes g)" using Cons.prems by simp
  from Cons.IH[OF this, of ms1] obtain ms' where
    "metrics_loop g (buildAdjacency g) ms1 is = Some ms'" "connectedFlag ms' \<longrightarrow> connectedFlag ms1"
    by blast
  then show ?case using m by simp
qed

lemma metrics_first_round:
  assumes n: "0 < length (nodes g)"
  shows "\<exists>ms' D P. bfs (node_id (nodes g ! 0)) (buildAdjacency g) (nodes g) = Some (D, P)
      \<and> metrics_loop g (buildAdjacency g) metrics_start [0..<length (nodes g)] = Some ms'
      \<and> (connectedFlag ms' \<longrightarrow> length (nodes g) \<le> length (fin_vals D))"
proof -
  from metrics_source_returns[OF n, of metrics_start] obtain ms1 D P where
    m: "bfs (node_id (nodes g ! 0)) (buildAdjacency g) (nodes g) = Some (D, P)"
       "metrics_source g (buildAdjacency g) metrics_start 0 = Some ms1"
       "connectedFlag ms1 \<longrightarrow> length (nodes g) \<le> length (fin_vals D)"
    by blast
  have "\<forall>i\<in>set [1..<length (nodes g)]. i < length (nodes g)" by simp
  from metrics_loop_returns[OF this, of ms1] obtain ms' where
    l: "metrics_loop g (buildAdjacency g) ms1 [1..<length (nodes g)] = Some ms'"
       "connectedFlag ms' \<longrightarrow> connectedFlag ms1"
    by blast
  have "[0..<length (nodes g)] = 0 # [1..<length (nodes g)]" using n by (simp add: upt_conv_Cons)
  then have "metrics_loop g (buildAdjacency g) metrics_start [0..<length (nodes g)] = Some ms'"
    using m(2) l(1) by simp
  then show ?thesis using m(1,3) l(2) by blast
qed

text \<open>
  Claim C10. Whenever \<open>calculateGraphMetrics\<close>, run on a graph and the adjacency built from it,
  returns \<open>isConnected = true\<close>, every node of the graph is reachable from every node. The
  first search already decides it: a count of \<open>n\<close> reachable nodes from the first source
  means that the ids are pairwise distinct and all reachable from it, and reachability between
  nodes is symmetric. This holds for every graph, in particular for those whose edge endpoints
  are all node ids; components of equal size cannot make the result \<open>true\<close>.
\<close>

theorem isConnected_sound:
  assumes "calculateGraphMetrics ties_up g (buildAdjacency g) = Some m" and "isConnected m"
  shows "connected_graph g"
proof (cases "length (nodes g) \<le> 1")
  case True
  have "card (node_ids (nodes g)) \<le> 1" using True card_node_ids_le[of "nodes g"] by simp
  moreover have "finite (node_ids (nodes g))" by (simp add: node_ids_def)
  ultimately have "\<And>a b. a \<in> node_ids (nodes g) \<Longrightarrow> b \<in> node_ids (nodes g) \<Longrightarrow> a = b"
    by (metis card_le_Suc0_iff_eq One_nat_def)
  then show ?thesis by (auto simp: connected_graph_def reachable_def)
next
  case False
  then have n: "0 < length (nodes g)" by (cases "nodes g") simp_all
  from metrics_first_round[OF n] obtain ms' D P where
    r: "bfs (node_id (nodes g ! 0)) (buildAdjacency g) (nodes g) = Some (D, P)"
       "metrics_loop g (buildAdjacency g) metrics_start [0..<length (nodes g)] = Some ms'"
       "connectedFlag ms' \<longrightarrow> length (nodes g) \<le> length (fin_vals D)"
    by blast
  have "m = metrics_result ties_up ms'"
    using assms(1) False r(2) by (simp add: calculateGraphMetrics_def)
  then have "connectedFlag ms'" using assms(2) by (simp add: metrics_result_def)
  then have "length (nodes g) \<le> length (fin_vals D)" using r(3) by simp
  from full_scan_connected[OF node_ids_nth[OF n] r(1) this] show ?thesis by simp
qed

lemma ring_4_1_metrics:
  "calculateGraphMetrics (\<lambda>x. True) (snd (generateRing 4 1)) (buildAdjacency (snd (generateRing 4 1)))
     = Some \<lparr>diameter = Fin 2, avgPathLength = Fin (1333 / 1000), isConnected = True\<rparr>"
  by code_simp

theorem isConnected_sound_witness:
  "calculateGraphMetrics (\<lambda>x. True) (snd (generateRing 4 1)) (buildAdjacency (snd (generateRing 4 1)))
     = Some \<lparr>diameter = Fin 2, avgPathLength = Fin (1333 / 1000), isConnected = True\<rparr>
   \<and> isConnected \<lparr>diameter = Fin 2, avgPathLength = Fin (1333 / 1000), isConnected = True\<rparr>
   \<and> connected_graph (snd (generateRing 4 1))"
  using isConnected_sound[OF ring_4_1_metrics] ring_4_1_metrics by simp

text \<open>
  Claim C4. For every graph with at least 2 nodes in which some node is not reachable from some
  other node, \<open>calculateGraphMetrics\<close> returns a result (it neither fails nor runs forever),
  and the result is \<open>isConnected = false\<close> with \<open>diameter\<close> and \<open>avgPathLength\<close> both
  \<open>Infinity\<close>.
\<close>

theorem disconnected_reported:
  assumes "2 \<le> length (nodes g)" and "\<not> connected_graph g"
  shows "calculateGraphMetrics ties_up g (buildAdjacency g)
           = Some \<lparr>diameter = Infinity, avgPathLength = Infinity, isConnected = False\<rparr>"
proof -
  have n: "0 < length (nodes g)" using assms(1) by (cases "nodes g") simp_all
  from metrics_first_round[OF n] obtain ms' D P where
    r: "bfs (node_id (nodes g ! 0)) (buildAdjacency g) (nodes g) = Some (D, P)"
       "metrics_loop g (buildAdjacency g) metrics_start [0..<length (nodes g)] = Some ms'"
       "connectedFlag ms' \<longrightarrow> length (nodes g) \<le> length (fin_vals D)"
    by blast
  have "\<not> connectedFlag ms'"
    using r(3) full_scan_connected[OF node_ids_nth[OF n] r(1)] assms(2) by blast
  then have "metrics_result ties_up ms' = \<lparr>diameter = Infinity, avgPathLength = Infinity, isConnected = False\<rparr>"
    by (simp add: metrics_result_def)
  then show ?thesis using assms(1) r(2) by (simp add: calculateGraphMetrics_def)
qed

lemma two_pairs_bfs:
  "bfs 0 (buildAdjacency two_pairs) (nodes two_pairs)
     = Some ([(0, Fin 0), (1, Fin 1), (2, Infinity), (3, Infinity)],
             [(0, None), (1, Some 0), (2, None), (3, None)])"
  by code_simp

lemma two_pairs_nodes: "node_ids (nodes two_pairs) = {0, 1, 2, 3}"
  by (simp add: two_pairs_def node_ids_def ring_node_def)

lemma two_pairs_disconnected: "\<not> connected_graph two_pairs"
proof -
  have a: "(0::nat) \<in> node_ids (nodes two_pairs)" by (simp add: two_pairs_nodes)
  from bfs_on_graph[OF a] obtain D P where
    r: "bfs 0 (buildAdjacency two_pairs) (nodes two_pairs) = Some (D, P)"
       "\<forall>k. (k, Infinity) \<in> set D \<longleftrightarrow>
            k \<in> node_ids (nodes two_pairs) \<and> \<not> reachable (adj_edges (buildAdjacency two_pairs)) 0 k"
    by blast
  have "(2, Infinity) \<in> set D" using r(1) unfolding two_pairs_bfs by auto
  then have "\<not> reachable (adj_edges (buildAdjacency two_pairs)) 0 2" using r(2) by blast
  then show ?thesis unfolding connected_graph_def two_pairs_nodes by blast
qed

theorem disconnected_reported_witness:
  "2 \<le> length (nodes two_pairs) \<and> \<not> connected_graph two_pairs
   \<and> calculateGraphMetrics (\<lambda>x. True) two_pairs (buildAdjacency two_pairs)
       = Some \<lparr>diameter = Infinity, avgPathLength = Infinity, isConnected = False\<rparr>"
proof -
  have n: "2 \<le> length (nodes two_pairs)" by (simp add: two_pairs_def)
  show ?thesis using n two_pairs_disconnected disconnected_reported[OF n two_pairs_disconnected] by simp
qed

section \<open>Metrics of a connected graph\<close>

lemma shortest_is_distance:
  "shortest_path_length E a b d \<Longrightarrow> distance E a b = d"
  unfolding shortest_path_length_def distance_def
  by (metis (mono_tags, lifting) Least_equality linorder_not_less)

lemma distance_self: "distance E a a = 0"
  unfolding distance_def by (rule Least_equality) simp_all

lemma distance_zero:
  assumes "reachable E a b" and "distance E a b = 0"
  shows "b = a"
proof -
  obtain k where "(a, b) \<in> E ^^ k" using assms(1) by (auto simp: reachable_def rtrancl_power)
  then have "(a, b) \<in> E ^^ (LEAST d. (a, b) \<in> E ^^ d)" by (rule LeastI)
  then show ?thesis using assms(2) by (simp add: distance_def)
qed

lemma fin_vals_map:
  "\<forall>kv\<in>set D. snd kv = Fin (f (fst kv)) \<Longrightarrow> fin_vals D = map f (map fst D)"
proof (induction D)
  case Nil show ?case by simp
next
  case (Cons kv D)
  obtain k v where kv: "kv = (k, v)" by (cases kv)
  then have "v = Fin (f k)" using Cons.prems by simp
  then show ?case using Cons kv by simp
qed

lemma foldl_max_Max: "foldl max m xs = Max (insert (m::nat) (set xs))"
proof (induction xs arbitrary: m)
  case Nil show ?case by simp
next
  case (Cons x xs)
  have "Max (insert m (set (x # xs))) = max m (Max (insert x (set xs)))"
    by (simp add: insert_commute)
  also have "\<dots> = Max (insert (max m x) (set xs))"
    by (cases "set xs = {}") (simp_all add: max.assoc)
  finally show ?case using Cons.IH[of "max m x"] by simp
qed

lemma connected_scan:
  assumes con: "connected_graph g" and dis: "distinct (map node_id (nodes g))"
      and a: "a \<in> node_ids (nodes g)"
  shows "\<exists>D P. bfs a (buildAdjacency g) (nodes g) = Some (D, P)
      \<and> (\<forall>kv\<in>set D. snd kv \<noteq> NaN)
      \<and> length (fin_vals D) = length (nodes g)
      \<and> sum_list (fin_vals D) = sum (distance (adj_edges (buildAdjacency g)) a) (node_ids (nodes g))
      \<and> length (filter (\<lambda>d. 0 < d) (fin_vals D)) = length (nodes g) - 1
      \<and> foldl max 0 (fin_vals D) = Max (distance (adj_edges (buildAdjacency g)) a ` node_ids (nodes g))"
proof -
  define E where "E = adj_edges (buildAdjacency g)"
  define V where "V = node_ids (nodes g)"
  from bfs_on_graph[OF a] obtain D P where
    b: "bfs a (buildAdjacency g) (nodes g) = Some (D, P)"
    and dk: "distinct (map fst D)" and ks: "fst ` set D = V"
    and nn: "\<forall>kv\<in>set D. snd kv \<noteq> NaN"
    and f: "\<And>k d. (k, Fin d) \<in> set D \<longleftrightarrow> k \<in> V \<and> shortest_path_length E a k d"
    and i: "\<And>k. (k, Infinity) \<in> set D \<longleftrightarrow> k \<in> V \<and> \<not> reachable E a k"
    unfolding E_def V_def by blast
  have re: "\<And>k. k \<in> V \<Longrightarrow> reachable E a k"
    using con a unfolding connected_graph_def E_def V_def by blast
  have cV: "card V = length (nodes g)"
    using dis card_node_ids_distinct[of "nodes g"] by (simp add: V_def)
  have fV: "finite V" by (simp add: V_def node_ids_def)
  have sk: "set (map fst D) = V" using ks by simp
  have lD: "length D = length (nodes g)"
    using dk sk cV by (metis distinct_card length_map)
  have vals: "\<forall>kv\<in>set D. snd kv = Fin (distance E a (fst kv))"
  proof
    fix kv assume m: "kv \<in> set D"
    obtain k v where kv: "kv = (k, v)" by (cases kv)
    have kV: "k \<in> V" using m kv ks by force
    show "snd kv = Fin (distance E a (fst kv))"
    proof (cases v)
      case (Fin d)
      then have "shortest_path_length E a k d" using m kv f by blast
      then show ?thesis using shortest_is_distance kv Fin by force
    next
      case Infinity
      then show ?thesis using m kv i re kV by blast
    next
      case NaN
      then show ?thesis using m kv nn by force
    qed
  qed
  define ks where "ks = map fst D"
  have dks: "distinct ks" and sks: "set ks = V" and lks: "length ks = length (nodes g)"
    using dk sk lD by (simp_all add: ks_def)
  have fv: "fin_vals D = map (distance E a) ks" using fin_vals_map[OF vals] by (simp add: ks_def)
  have 1: "length (fin_vals D) = length (nodes g)" using fv lks by simp
  have 2: "sum_list (fin_vals D) = sum (distance E a) V"
    unfolding fv using sum_list_distinct_conv_sum_set[OF dks, of "distance E a"] sks by simp
  have pos: "{k \<in> V. 0 < distance E a k} = V - {a}"
  proof (intro set_eqI iffI)
    fix k assume "k \<in> {k \<in> V. 0 < distance E a k}"
    then show "k \<in> V - {a}" using distance_self[of E a] by auto
  next
    fix k assume k: "k \<in> V - {a}"
    then have "distance E a k \<noteq> 0" using distance_zero[OF re, of k] by auto
    then show "k \<in> {k \<in> V. 0 < distance E a k}" using k by simp
  qed
  have "filter (\<lambda>d. 0 < d) (fin_vals D) = map (distance E a) (filter (\<lambda>k. 0 < distance E a k) ks)"
    unfolding fv by (simp add: filter_map comp_def)
  then have "length (filter (\<lambda>d. 0 < d) (fin_vals D)) = length (filter (\<lambda>k. 0 < distance E a k) ks)"
    by simp
  also have "\<dots> = card (set (filter (\<lambda>k. 0 < distance E a k) ks))"
    using distinct_card[OF distinct_filter[OF dks], of "\<lambda>k. 0 < distance E a k"] by simp
  also have "set (filter (\<lambda>k. 0 < distance E a k) ks) = V - {a}" using sks pos by simp
  also have "card (V - {a}) = length (nodes g) - 1" using a cV fV by (simp add: V_def)
  finally have 3: "length (filter (\<lambda>d. 0 < d) (fin_vals D)) = length (nodes g) - 1" .
  have "0 \<in> distance E a ` V" using a distance_self[of E a] unfolding V_def by force
  then have "insert 0 (distance E a ` V) = distance E a ` V" by blast
  then have 4: "foldl max 0 (fin_vals D) = Max (distance E a ` V)"
    unfolding fv foldl_max_Max using sks by simp
  show ?thesis using b nn 1 2 3 4 unfolding E_def V_def by blast
qed

lemma connected_round:
  assumes con: "connected_graph g" and dis: "distinct (map node_id (nodes g))"
      and i: "i < length (nodes g)"
      and flag: "connectedFlag ms"
      and first: "i = 0 \<or> nodesInFirstComponent ms = length (nodes g)"
      and mx: "maxDistance ms = Fin m"
  shows "\<exists>ms'. metrics_source g (buildAdjacency g) ms i = Some ms'
      \<and> connectedFlag ms'
      \<and> nodesInFirstComponent ms' = length (nodes g)
      \<and> totalPathLengthSum ms' = totalPathLengthSum ms
           + sum (distance (adj_edges (buildAdjacency g)) (node_id (nodes g ! i))) (node_ids (nodes g))
      \<and> reachablePairsCount ms' = reachablePairsCount ms + (length (nodes g) - 1)
      \<and> maxDistance ms' = Fin (max m (Max (distance (adj_edges (buildAdjacency g)) (node_id (nodes g ! i))
                                              ` node_ids (nodes g))))"
proof -
  have a: "node_id (nodes g ! i) \<in> node_ids (nodes g)" using i by (rule node_ids_nth)
  from connected_scan[OF con dis a] obtain D P where
    b: "bfs (node_id (nodes g ! i)) (buildAdjacency g) (nodes g) = Some (D, P)"
    and nn: "\<forall>kv\<in>set D. snd kv \<noteq> NaN"
    and c1: "length (fin_vals D) = length (nodes g)"
    and c2: "sum_list (fin_vals D)
        = sum (distance (adj_edges (buildAdjacency g)) (node_id (nodes g ! i))) (node_ids (nodes g))"
    and c3: "length (filter (\<lambda>d. 0 < d) (fin_vals D)) = length (nodes g) - 1"
    and c4: "foldl max 0 (fin_vals D)
        = Max (distance (adj_edges (buildAdjacency g)) (node_id (nodes g ! i)) ` node_ids (nodes g))"
    by blast
  from metrics_source_facts[OF b nn, of ms] obtain ms' where
    r: "metrics_source g (buildAdjacency g) ms i = Some ms'"
       "connectedFlag ms' = (connectedFlag ms \<and>
          (if i = 0 then \<not> length (fin_vals D) < length (nodes g)
           else length (fin_vals D) = nodesInFirstComponent ms))"
       "nodesInFirstComponent ms' = (if i = 0 then length (fin_vals D) else nodesInFirstComponent ms)"
       "totalPathLengthSum ms' = totalPathLengthSum ms + sum_list (fin_vals D)"
       "reachablePairsCount ms' = reachablePairsCount ms + length (filter (\<lambda>d. 0 < d) (fin_vals D))"
       "maxDistance ms' = js_max (maxDistance ms) (Fin (foldl max 0 (fin_vals D)))"
    by blast
  have f: "connectedFlag ms'" using r(2) flag first c1 by auto
  have n: "nodesInFirstComponent ms' = length (nodes g)" using r(3) first c1 by auto
  have m: "maxDistance ms' = Fin (max m (Max (distance (adj_edges (buildAdjacency g)) (node_id (nodes g ! i))
                                              ` node_ids (nodes g))))"
    using r(6) mx c4 by simp
  show ?thesis using r(1) f n r(4)[unfolded c2] r(5)[unfolded c3] m by blast
qed

lemma connected_loop:
  assumes con: "connected_graph g" and dis: "distinct (map node_id (nodes g))"
  shows "\<forall>i\<in>set is. i < length (nodes g) \<Longrightarrow> connectedFlag ms
    \<Longrightarrow> is = [] \<or> hd is = 0 \<or> nodesInFirstComponent ms = length (nodes g)
    \<Longrightarrow> maxDistance ms = Fin m
    \<Longrightarrow> \<exists>ms'. metrics_loop g (buildAdjacency g) ms is = Some ms'
      \<and> connectedFlag ms'
      \<and> totalPathLengthSum ms' = totalPathLengthSum ms
           + sum_list (map (\<lambda>i. sum (distance (adj_edges (buildAdjacency g)) (node_id (nodes g ! i)))
                                    (node_ids (nodes g))) is)
      \<and> reachablePairsCount ms' = reachablePairsCount ms + length is * (length (nodes g) - 1)
      \<and> maxDistance ms' = Fin (foldl max m
           (map (\<lambda>i. Max (distance (adj_edges (buildAdjacency g)) (node_id (nodes g ! i))
                             ` node_ids (nodes g))) is))"
proof (induction "is" arbitrary: ms m)
  case Nil
  then show ?case by simp
next
  case (Cons i "is")
  have i: "i < length (nodes g)" using Cons.prems(1) by simp
  have first: "i = 0 \<or> nodesInFirstComponent ms = length (nodes g)" using Cons.prems(3) by simp
  from connected_round[OF con dis i Cons.prems(2) first Cons.prems(4)] obtain ms1 where
    r: "metrics_source g (buildAdjacency g) ms i = Some ms1"
       "connectedFlag ms1"
       "nodesInFirstComponent ms1 = length (nodes g)"
       "totalPathLengthSum ms1 = totalPathLengthSum ms
           + sum (distance (adj_edges (buildAdjacency g)) (node_id (nodes g ! i))) (node_ids (nodes g))"
       "reachablePairsCount ms1 = reachablePairsCount ms + (length (nodes g) - 1)"
       "maxDistance ms1 = Fin (max m (Max (distance (adj_edges (buildAdjacency g)) (node_id (nodes g ! i))
                                              ` node_ids (nodes g))))"
    by blast
  have p1: "\<forall>i\<in>set is. i < length (nodes g)" using Cons.prems(1) by simp
  have p3: "is = [] \<or> hd is = 0 \<or> nodesInFirstComponent ms1 = length (nodes g)" using r(3) by simp
  from Cons.IH[OF p1 r(2) p3 r(6)] obtain ms' where
    l: "metrics_loop g (buildAdjacency g) ms1 is = Some ms'"
       "connectedFlag ms'"
       "totalPathLengthSum ms' = totalPathLengthSum ms1
           + sum_list (map (\<lambda>i. sum (distance (adj_edges (buildAdjacency g)) (node_id (nodes g ! i)))
                                    (node_ids (nodes g))) is)"
       "reachablePairsCount ms' = reachablePairsCount ms1 + length is * (length (nodes g) - 1)"
       "maxDistance ms' = Fin (foldl max
           (max m (Max (distance (adj_edges (buildAdjacency g)) (node_id (nodes g ! i)) ` node_ids (nodes g))))
           (map (\<lambda>i. Max (distance (adj_edges (buildAdjacency g)) (node_id (nodes g ! i))
                             ` node_ids (nodes g))) is))"
    by blast
  have "metrics_loop g (buildAdjacency g) ms (i # is) = Some ms'" using r(1) l(1) by simp
  then show ?case using l(2,3,4,5) r(4,5) by simp
qed

lemma Max_of_row_maxima:
  assumes "finite V" and "V \<noteq> {}"
  shows "Max (insert (0::nat) ((\<lambda>a. Max (f a ` V)) ` V)) = Max ((\<lambda>(a, b). f a b) ` (V \<times> V))"
proof (rule antisym)
  have fin2: "finite ((\<lambda>(a, b). f a b) ` (V \<times> V))" using assms(1) by simp
  have ne2: "(\<lambda>(a, b). f a b) ` (V \<times> V) \<noteq> {}" using assms(2) by simp
  show "Max (insert 0 ((\<lambda>a. Max (f a ` V)) ` V)) \<le> Max ((\<lambda>(a, b). f a b) ` (V \<times> V))"
  proof (rule Max.boundedI)
    show "finite (insert 0 ((\<lambda>a. Max (f a ` V)) ` V))" using assms(1) by simp
    show "insert 0 ((\<lambda>a. Max (f a ` V)) ` V) \<noteq> {}" by simp
    fix x assume "x \<in> insert 0 ((\<lambda>a. Max (f a ` V)) ` V)"
    then consider "x = 0" | a where "a \<in> V" "x = Max (f a ` V)" by blast
    then show "x \<le> Max ((\<lambda>(a, b). f a b) ` (V \<times> V))"
    proof cases
      case 1 then show ?thesis by simp
    next
      case 2
      have "Max (f a ` V) \<in> f a ` V" using assms by (intro Max_in) simp_all
      then obtain b where "b \<in> V" "Max (f a ` V) = f a b" by blast
      then have "x \<in> (\<lambda>(a, b). f a b) ` (V \<times> V)" using 2 by force
      then show ?thesis using fin2 by (rule Max_ge[rotated])
    qed
  qed
  show "Max ((\<lambda>(a, b). f a b) ` (V \<times> V)) \<le> Max (insert 0 ((\<lambda>a. Max (f a ` V)) ` V))"
  proof (rule Max.boundedI[OF fin2 ne2])
    fix x assume "x \<in> (\<lambda>(a, b). f a b) ` (V \<times> V)"
    then obtain a b where ab: "a \<in> V" "b \<in> V" "x = f a b" by auto
    have "f a b \<le> Max (f a ` V)" using assms(1) ab(2) by simp
    also have "\<dots> \<le> Max (insert 0 ((\<lambda>a. Max (f a ` V)) ` V))"
      using assms(1) ab(1) by (intro Max_ge) simp_all
    finally show "x \<le> Max (insert 0 ((\<lambda>a. Max (f a ` V)) ` V))" using ab(3) by simp
  qed
qed

lemma toFixed3_rounded3: "rounded3 (toFixed3 up x) x"
proof -
  define y where "y = x * 1000 + 1 / 2"
  define f where "f = \<lfloor>y\<rfloor>"
  have lo: "of_int f \<le> y" and hi: "y < of_int f + 1" unfolding f_def by linarith+
  have x: "x = (y - 1 / 2) / 1000" by (simp add: y_def)
  have tf: "toFixed3 up x
      = (if of_int f = y \<and> \<not> up x then of_int (f - 1) / 1000 else of_int f / 1000)"
    by (simp only: toFixed3_def Let_def y_def f_def)
  show ?thesis
  proof (cases "of_int f = y \<and> \<not> up x")
    case True
    have q: "toFixed3 up x = of_int (f - 1) / 1000"
      unfolding tf by (rule if_P[OF True])
    have fy: "y = of_int f" using True by simp
    have "of_int (f - 1) / 1000 - x = - (1 / 2000)"
      unfolding x fy by (simp add: diff_divide_distrib)
    then have "\<bar>of_int (f - 1) / 1000 - x\<bar> \<le> 1 / 2000" by simp
    then show ?thesis unfolding rounded3_def q by blast
  next
    case False
    have q: "toFixed3 up x = of_int f / 1000"
      unfolding tf by (rule if_not_P[OF False])
    define t where "t = of_int f - y + 1 / 2"
    have e: "of_int f / 1000 - x = t / 1000"
      unfolding x t_def by (simp add: diff_divide_distrib add_divide_distrib)
    have "- (1 / 2) < t" "t \<le> 1 / 2" unfolding t_def using lo hi by linarith+
    then have "\<bar>t\<bar> \<le> 1 / 2" by linarith
    then have "\<bar>t\<bar> / 1000 \<le> (1 / 2) / 1000" by (rule divide_right_mono) simp
    then have "\<bar>t / 1000\<bar> \<le> 1 / 2000" by simp
    then have "\<bar>of_int f / 1000 - x\<bar> \<le> 1 / 2000" unfolding e .
    then show ?thesis unfolding rounded3_def q by blast
  qed
qed

text \<open>
  Claim C3. For every connected graph with pairwise distinct node ids and at least 2 nodes,
  \<open>calculateGraphMetrics\<close> returns \<open>isConnected = true\<close>, a \<open>diameter\<close> equal to the maximum of
  the shortest-path distance over all pairs of nodes, and an \<open>avgPathLength\<close> that is, rounded
  to 3 decimal places, the sum of the shortest-path distances over all ordered pairs of
  different nodes divided by the number \<open>n * (n - 1)\<close> of such pairs.
\<close>

theorem connected_graph_metrics:
  assumes con: "connected_graph g" and dis: "distinct (map node_id (nodes g))"
      and n2: "2 \<le> length (nodes g)"
  shows "\<exists>q. calculateGraphMetrics ties_up g (buildAdjacency g)
       = Some \<lparr>diameter = Fin (Max ((\<lambda>(a, b). distance (adj_edges (buildAdjacency g)) a b)
                                      ` (node_ids (nodes g) \<times> node_ids (nodes g)))),
               avgPathLength = Fin q,
               isConnected = True\<rparr>
     \<and> rounded3 q
          (of_nat (\<Sum>a\<in>node_ids (nodes g). \<Sum>b\<in>node_ids (nodes g) - {a}.
                     distance (adj_edges (buildAdjacency g)) a b)
           / of_nat (card (node_ids (nodes g)) * (card (node_ids (nodes g)) - 1)))"
proof -
  define E where "E = adj_edges (buildAdjacency g)"
  define V where "V = node_ids (nodes g)"
  define n where "n = length (nodes g)"
  define S where "S = (\<lambda>a. sum (distance E a) V)"
  define M where "M = (\<lambda>a. Max (distance E a ` V))"
  have fV: "finite V" by (simp add: V_def node_ids_def)
  have cV: "card V = n" using dis card_node_ids_distinct[of "nodes g"] by (simp add: V_def n_def)
  have neV: "V \<noteq> {}" using cV n2 n_def by auto
  have p1: "\<forall>i\<in>set [0..<n]. i < length (nodes g)" by (simp add: n_def)
  have p3: "[0..<n] = [] \<or> hd [0..<n] = 0 \<or> nodesInFirstComponent metrics_start = length (nodes g)"
    using n2 by (cases n) (simp_all add: n_def upt_conv_Cons)
  have p2: "connectedFlag metrics_start" and p4: "maxDistance metrics_start = Fin 0"
    by (simp_all add: metrics_start_def)
  from connected_loop[OF con dis p1 p2 p3 p4] obtain ms where
    l: "metrics_loop g (buildAdjacency g) metrics_start [0..<n] = Some ms"
       "connectedFlag ms"
       "totalPathLengthSum ms = sum_list (map (\<lambda>i. S (node_id (nodes g ! i))) [0..<n])"
       "reachablePairsCount ms = n * (n - 1)"
       "maxDistance ms = Fin (foldl max 0 (map (\<lambda>i. M (node_id (nodes g ! i))) [0..<n]))"
    unfolding E_def[symmetric] V_def[symmetric] S_def M_def n_def[symmetric]
    by (auto simp: metrics_start_def)
  have srcs: "map (\<lambda>i. node_id (nodes g ! i)) [0..<n] = map node_id (nodes g)"
    unfolding n_def by (rule nth_equalityI) simp_all
  have mS: "map (\<lambda>i. S (node_id (nodes g ! i))) [0..<n] = map S (map node_id (nodes g))"
    using arg_cong[OF srcs, of "map S"] by (simp add: comp_def)
  have mM: "map (\<lambda>i. M (node_id (nodes g ! i))) [0..<n] = map M (map node_id (nodes g))"
    using arg_cong[OF srcs, of "map M"] by (simp add: comp_def)
  have sV: "set (map node_id (nodes g)) = V" by (simp add: V_def node_ids_def)
  have tot: "totalPathLengthSum ms = (\<Sum>a\<in>V. S a)"
    unfolding l(3) mS using sum_list_distinct_conv_sum_set[OF dis, of S] sV by simp
  have row: "\<And>a. a \<in> V \<Longrightarrow> S a = (\<Sum>b\<in>V - {a}. distance E a b)"
  proof -
    fix a assume aV: "a \<in> V"
    have "S a = distance E a a + (\<Sum>b\<in>V - {a}. distance E a b)"
      unfolding S_def by (rule sum.remove[OF fV aV])
    then show "S a = (\<Sum>b\<in>V - {a}. distance E a b)" by (simp add: distance_self)
  qed
  have tot2: "totalPathLengthSum ms = (\<Sum>a\<in>V. \<Sum>b\<in>V - {a}. distance E a b)"
    unfolding tot by (rule sum.cong[OF refl]) (rule row)
  have sM: "set (map M (map node_id (nodes g))) = M ` V"
    unfolding sV[symmetric] by (simp only: set_map)
  have "maxDistance ms = Fin (Max (insert 0 (M ` V)))"
    unfolding l(5) mM foldl_max_Max sM ..
  then have mxd: "maxDistance ms = Fin (Max ((\<lambda>(a, b). distance E a b) ` (V \<times> V)))"
    unfolding M_def by (simp only: Max_of_row_maxima[OF fV neV])
  note n2' = n2[folded n_def]
  have "0 < n * (n - 1)" using n2' by simp
  then have pos: "0 < reachablePairsCount ms" using l(4) by simp
  define x :: rat where "x = of_nat (\<Sum>a\<in>V. \<Sum>b\<in>V - {a}. distance E a b) / of_nat (card V * (card V - 1))"
  have res: "calculateGraphMetrics ties_up g (buildAdjacency g) = Some (metrics_result ties_up ms)"
    using n2 l(1) by (simp add: calculateGraphMetrics_def n_def)
  have mr: "metrics_result ties_up ms
      = \<lparr>diameter = Fin (Max ((\<lambda>(a, b). distance E a b) ` (V \<times> V))),
         avgPathLength = Fin (toFixed3 ties_up x), isConnected = True\<rparr>"
    using l(2) pos mxd tot2 l(4) cV by (simp add: metrics_result_def x_def)
  have "rounded3 (toFixed3 ties_up x) x" by (rule toFixed3_rounded3)
  then show ?thesis
    unfolding res mr E_def[symmetric] V_def[symmetric] x_def[symmetric] by blast
qed

lemma ring_4_1_bfs:
  "bfs (node_id (nodes (snd (generateRing 4 1)) ! 0)) (buildAdjacency (snd (generateRing 4 1)))
       (nodes (snd (generateRing 4 1)))
     = Some ([(0, Fin 0), (1, Fin 1), (2, Fin 2), (3, Fin 1)],
             [(0, None), (1, Some 0), (2, Some 1), (3, Some 0)])"
  by code_simp

lemma ring_4_1_nodes: "map node_id (nodes (snd (generateRing 4 1))) = [0, 1, 2, 3]"
  by code_simp

lemma ring_4_1_connected:
  "connected_graph (snd (generateRing 4 1)) \<and> distinct (map node_id (nodes (snd (generateRing 4 1))))"
proof -
  have l: "length (nodes (snd (generateRing 4 1))) = 4"
    using arg_cong[OF ring_4_1_nodes, of length] by simp
  have a: "node_id (nodes (snd (generateRing 4 1)) ! 0) \<in> node_ids (nodes (snd (generateRing 4 1)))"
    by (rule node_ids_nth) (simp add: l)
  show ?thesis
    by (rule full_scan_connected[OF a ring_4_1_bfs]) (simp add: l)
qed

theorem connected_graph_metrics_witness:
  "connected_graph (snd (generateRing 4 1))
   \<and> distinct (map node_id (nodes (snd (generateRing 4 1))))
   \<and> 2 \<le> length (nodes (snd (generateRing 4 1)))
   \<and> Max ((\<lambda>(a, b). distance (adj_edges (buildAdjacency (snd (generateRing 4 1)))) a b)
             ` (node_ids (nodes (snd (generateRing 4 1))) \<times> node_ids (nodes (snd (generateRing 4 1))))) = 2
   \<and> rounded3 (1333 / 1000)
        (of_nat (\<Sum>a\<in>node_ids (nodes (snd (generateRing 4 1))).
                   \<Sum>b\<in>node_ids (nodes (snd (generateRing 4 1))) - {a}.
                     distance (adj_edges (buildAdjacency (snd (generateRing 4 1)))) a b)
         / of_nat (card (node_ids (nodes (snd (generateRing 4 1))))
                   * (card (node_ids (nodes (snd (generateRing 4 1)))) - 1)))"
proof -
  have l: "2 \<le> length (nodes (snd (generateRing 4 1)))"
    using arg_cong[OF ring_4_1_nodes, of length] by simp
  note c = ring_4_1_connected
  from connected_graph_metrics[OF c[THEN conjunct1] c[THEN conjunct2] l, of "\<lambda>x. True"]
  obtain q where
    e: "Some \<lparr>diameter = Fin (2::nat), avgPathLength = Fin (1333 / 1000 :: rat), isConnected = True\<rparr>
        = Some \<lparr>diameter = Fin (Max ((\<lambda>(a, b). distance (adj_edges (buildAdjacency (snd (generateRing 4 1)))) a b)
             ` (node_ids (nodes (snd (generateRing 4 1))) \<times> node_ids (nodes (snd (generateRing 4 1)))))),
               avgPathLength = Fin q, isConnected = True\<rparr>"
    and r: "rounded3 q
        (of_nat (\<Sum>a\<in>node_ids (nodes (snd (generateRing 4 1))).
                   \<Sum>b\<in>node_ids (nodes (snd (generateRing 4 1))) - {a}.
                     distance (adj_edges (buildAdjacency (snd (generateRing 4 1)))) a b)
         / of_nat (card (node_ids (nodes (snd (generateRing 4 1))))
                   * (card (node_ids (nodes (snd (generateRing 4 1)))) - 1)))"
    unfolding ring_4_1_metrics by (elim exE conjE)
  from e have q: "q = 1333 / 1000"
    and m: "Max ((\<lambda>(a, b). distance (adj_edges (buildAdjacency (snd (generateRing 4 1)))) a b)
             ` (node_ids (nodes (snd (generateRing 4 1))) \<times> node_ids (nodes (snd (generateRing 4 1))))) = 2"
    by simp_all
  show ?thesis using c l m r[unfolded q] by (intro conjI) (elim conjE, assumption)+
qed

section \<open>Generated graphs\<close>

subsection \<open>Edge keys are injective\<close>

lemma of_char_digit_char: "k < 10 \<Longrightarrow> (of_char (digit_char k) :: nat) = 48 + k"
  unfolding digit_char_def of_char_of by simp

lemma digit_char_inj: "j < 10 \<Longrightarrow> k < 10 \<Longrightarrow> digit_char j = digit_char k \<Longrightarrow> j = k"
proof -
  assume j: "j < 10" and k: "k < 10" and e: "digit_char j = digit_char k"
  have "(of_char (digit_char j) :: nat) = of_char (digit_char k)" unfolding e ..
  then have "48 + j = 48 + k" unfolding of_char_digit_char[OF j] of_char_digit_char[OF k] .
  then show "j = k" by simp
qed

lemma digit_char_not_dash: "k < 10 \<Longrightarrow> digit_char k \<noteq> CHR ''-''"
proof
  assume k: "k < 10" and e: "digit_char k = CHR ''-''"
  have "(of_char (digit_char k) :: nat) = of_char (CHR ''-'')" unfolding e ..
  then have "48 + k = (45::nat)" unfolding of_char_digit_char[OF k] by simp
  then show False by simp
qed

lemma toString_nonempty: "toString n \<noteq> []"
  by (subst toString.simps) simp

lemma toString_no_dash: "CHR ''-'' \<notin> set (toString n)"
proof (induction n rule: toString.induct)
  case (1 n)
  show ?case
  proof (cases "n < 10")
    case True
    have e: "toString n = [digit_char n]" using True by (subst toString.simps) simp
    show ?thesis unfolding e using digit_char_not_dash[OF True] by simp
  next
    case False
    have e: "toString n = toString (n div 10) @ [digit_char (n mod 10)]"
      using False by (subst toString.simps) simp
    have "n mod 10 < 10" by simp
    then have d: "digit_char (n mod 10) \<noteq> CHR ''-''" by (rule digit_char_not_dash)
    have "CHR ''-'' \<notin> set (toString (n div 10))" using "1.IH"[OF False] .
    then show ?thesis unfolding e using d by simp
  qed
qed

lemma toString_inj: "toString m = toString n \<Longrightarrow> m = n"
proof (induction m arbitrary: n rule: toString.induct)
  case (1 m)
  show ?case
  proof (cases "m < 10")
    case True
    have em: "toString m = [digit_char m]" using True by (subst toString.simps) simp
    show ?thesis
    proof (cases "n < 10")
      case n: True
      have en: "toString n = [digit_char n]" using n by (subst toString.simps) simp
      have "[digit_char m] = [digit_char n]" using "1.prems" unfolding em en .
      then have "digit_char m = digit_char n" by simp
      then show ?thesis by (rule digit_char_inj[OF True n])
    next
      case n: False
      have en: "toString n = toString (n div 10) @ [digit_char (n mod 10)]"
        using n by (subst toString.simps) simp
      have "length (toString n) \<ge> 2"
        unfolding en using toString_nonempty[of "n div 10"] by (cases "toString (n div 10)") simp_all
      moreover have "length (toString n) = 1" using "1.prems"[symmetric] unfolding em by simp
      ultimately show ?thesis by simp
    qed
  next
    case False
    have em: "toString m = toString (m div 10) @ [digit_char (m mod 10)]"
      using False by (subst toString.simps) simp
    show ?thesis
    proof (cases "n < 10")
      case n: True
      have en: "toString n = [digit_char n]" using n by (subst toString.simps) simp
      have "length (toString m) \<ge> 2"
        unfolding em using toString_nonempty[of "m div 10"] by (cases "toString (m div 10)") simp_all
      moreover have "length (toString m) = 1" using "1.prems" unfolding en by simp
      ultimately show ?thesis by simp
    next
      case n: False
      have en: "toString n = toString (n div 10) @ [digit_char (n mod 10)]"
        using n by (subst toString.simps) simp
      have "toString (m div 10) @ [digit_char (m mod 10)] = toString (n div 10) @ [digit_char (n mod 10)]"
        using "1.prems" unfolding em en .
      then have t: "toString (m div 10) = toString (n div 10)"
        and c: "digit_char (m mod 10) = digit_char (n mod 10)"
        by simp_all
      have q: "m div 10 = n div 10" by (rule "1.IH"[OF False t])
      have "m mod 10 < 10" "n mod 10 < 10" by simp_all
      then have r: "m mod 10 = n mod 10" using c by (rule digit_char_inj)
      have "m = 10 * (m div 10) + m mod 10" by simp
      also have "\<dots> = 10 * (n div 10) + n mod 10" unfolding q r ..
      also have "\<dots> = n" by simp
      finally show ?thesis .
    qed
  qed
qed

lemma edgeKey_Cons: "edgeKey a b = toString a @ CHR ''-'' # toString b"
  unfolding edgeKey_def by (simp only: append_Cons append_Nil)

lemma edgeKey_inj: "edgeKey a b = edgeKey c d \<longleftrightarrow> a = c \<and> b = d"
proof
  assume "edgeKey a b = edgeKey c d"
  then have e: "toString a @ CHR ''-'' # toString b = toString c @ CHR ''-'' # toString d"
    unfolding edgeKey_Cons .
  note r = append_Cons_eq_iff[OF toString_no_dash[of a] toString_no_dash[of b]]
  have "toString a = toString c \<and> toString b = toString d"
    by (rule iffD1[OF r e])
  then have "a = c" "b = d" using toString_inj[of a c] toString_inj[of b d] by simp_all
  then show "a = c \<and> b = d" by simp
next
  assume "a = c \<and> b = d" then show "edgeKey a b = edgeKey c d" by simp
qed

subsection \<open>Deduplicated insertion of edges\<close>

lemma upair_min_max:
  "{a, b} = {c, d} \<longleftrightarrow> min a b = min c d \<and> max a b = max (c::nat) d"
  by (auto simp: doubleton_eq_iff min_def max_def)

lemma edge_key_eq: "edge_key e = edge_key e' \<longleftrightarrow> upair e = upair e'"
  by (simp add: edge_key_def edgeKey_inj upair_def upair_min_max)

lemma addEdge_inv:
  assumes "dedup_inv st"
  shows "dedup_inv (addEdge u v st)
       \<and> upair ` set (fst (addEdge u v st)) = upair ` set (fst st) \<union> (if u \<noteq> v then {{u, v}} else {})
       \<and> set (fst (addEdge u v st)) \<subseteq> insert \<lparr>source = u, target = v\<rparr> (set (fst st))"
proof -
  define e where "e = \<lparr>source = u, target = v\<rparr>"
  have k: "edgeKey (min u v) (max u v) = edge_key e" by (simp add: edge_key_def e_def)
  have up: "upair e = {u, v}" by (simp add: upair_def e_def)
  have I1: "set (snd st) = edge_key ` set (fst st)"
    and I2: "\<forall>x\<in>set (fst st). source x \<noteq> target x"
    and I3: "distinct (map upair (fst st))"
    using assms by (simp_all add: dedup_inv_def)
  have mem: "edge_key e \<in> set (snd st) \<longleftrightarrow> upair e \<in> upair ` set (fst st)"
  proof
    assume "edge_key e \<in> set (snd st)"
    then obtain x where x: "x \<in> set (fst st)" "edge_key e = edge_key x" unfolding I1 by blast
    then have "upair e = upair x" using edge_key_eq[of e x] by simp
    then show "upair e \<in> upair ` set (fst st)" using x(1) by blast
  next
    assume "upair e \<in> upair ` set (fst st)"
    then obtain x where x: "x \<in> set (fst st)" "upair e = upair x" by blast
    then have "edge_key e = edge_key x" using edge_key_eq[of e x] by simp
    then show "edge_key e \<in> set (snd st)" unfolding I1 using x(1) by blast
  qed
  have mm: "min u v \<noteq> max u v \<longleftrightarrow> u \<noteq> v" by (auto simp: min_def max_def)
  show ?thesis
  proof (cases "edge_key e \<notin> set (snd st) \<and> u \<noteq> v")
    case True
    have r: "addEdge u v st = (fst st @ [e], snd st @ [edge_key e])"
      using True mm unfolding addEdge_def Let_def k e_def by simp
    have new: "upair e \<notin> upair ` set (fst st)" using True mem by simp
    have d1: "set (snd st @ [edge_key e]) = edge_key ` set (fst st @ [e])"
      using I1 by simp
    have d2: "\<forall>x\<in>set (fst st @ [e]). source x \<noteq> target x"
      using I2 True by (simp add: e_def)
    have d3: "distinct (map upair (fst st @ [e]))"
      using I3 new by simp
    have inv: "dedup_inv (fst st @ [e], snd st @ [edge_key e])"
      unfolding dedup_inv_def fst_conv snd_conv using d1 d2 d3 by (intro conjI)
    have s1: "upair ` set (fst st @ [e]) = upair ` set (fst st) \<union> {{u, v}}"
      using up by simp
    have s2: "set (fst st @ [e]) \<subseteq> insert e (set (fst st))" by auto
    show ?thesis
      unfolding r fst_conv using inv s1 s2 True unfolding e_def by simp
  next
    case False
    have r: "addEdge u v st = st"
      using False mm unfolding addEdge_def Let_def k e_def[symmetric] by auto
    have "u \<noteq> v \<Longrightarrow> {u, v} \<in> upair ` set (fst st)"
      using False mem up by simp
    then have s1: "upair ` set (fst st) = upair ` set (fst st) \<union> (if u \<noteq> v then {{u, v}} else {})"
      by auto
    show ?thesis unfolding r using assms s1 by auto
  qed
qed

lemma add_all_Nil: "add_all [] st = st"
  by (simp add: add_all_def)

lemma add_all_Cons: "add_all (p # ps) st = add_all ps (addEdge (fst p) (snd p) st)"
  by (simp add: add_all_def)

lemma add_all_append: "add_all (ps @ qs) st = add_all qs (add_all ps st)"
  by (simp add: add_all_def)

lemma add_all_inv:
  "dedup_inv st \<Longrightarrow>
     dedup_inv (add_all ps st)
   \<and> upair ` set (fst (add_all ps st)) = upair ` set (fst st) \<union> {{u, v} |u v. (u, v) \<in> set ps \<and> u \<noteq> v}
   \<and> (\<forall>e\<in>set (fst (add_all ps st)). e \<in> set (fst st) \<or> (source e, target e) \<in> set ps)"
proof (induction ps arbitrary: st)
  case Nil
  then show ?case by (simp add: add_all_Nil)
next
  case (Cons p ps)
  obtain u v where p: "p = (u, v)" by (cases p)
  note A = addEdge_inv[OF Cons.prems, of u v]
  note B = Cons.IH[OF A[THEN conjunct1]]
  have 1: "dedup_inv (add_all (p # ps) st)" using B[THEN conjunct1] by (simp add: add_all_Cons p)
  have 2: "upair ` set (fst (add_all (p # ps) st))
      = upair ` set (fst st) \<union> {{u, v} |u v. (u, v) \<in> set (p # ps) \<and> u \<noteq> v}"
    unfolding add_all_Cons p fst_conv snd_conv B[THEN conjunct2, THEN conjunct1] A[THEN conjunct2, THEN conjunct1]
    by auto
  have 3: "\<forall>e\<in>set (fst (add_all (p # ps) st)). e \<in> set (fst st) \<or> (source e, target e) \<in> set (p # ps)"
  proof
    fix e assume "e \<in> set (fst (add_all (p # ps) st))"
    then have "e \<in> set (fst (addEdge u v st)) \<or> (source e, target e) \<in> set ps"
      using B[THEN conjunct2, THEN conjunct2] by (simp add: add_all_Cons p)
    then show "e \<in> set (fst st) \<or> (source e, target e) \<in> set (p # ps)"
      using A[THEN conjunct2, THEN conjunct2] p by auto
  qed
  show ?case using 1 2 3 by blast
qed

lemma dedup_inv_empty: "dedup_inv ([], [])"
  by (simp add: dedup_inv_def)

lemma add_all_fold_concat:
  "foldl (\<lambda>st x. add_all (f x) st) st xs = add_all (concat (map f xs)) st"
  by (induction xs arbitrary: st) (simp_all add: add_all_Nil add_all_append)

subsection \<open>Graphs from deduplicated pairs\<close>

lemma add_all_graph:
  assumes ps: "\<forall>p\<in>set ps. fst p < n \<and> snd p < n"
      and ids: "map node_id ns = [0..<n]"
  shows "well_formed \<lparr>nodes = ns, edges = fst (add_all ps ([], []))\<rparr>
       \<and> upair ` set (fst (add_all ps ([], []))) = {{u, v} |u v. (u, v) \<in> set ps \<and> u \<noteq> v}"
proof -
  note A = add_all_inv[OF dedup_inv_empty, of ps]
  have inv: "dedup_inv (add_all ps ([], []))" using A by blast
  have ln: "length ns = n" using arg_cong[OF ids, of length] by simp
  have e: "\<forall>e\<in>set (fst (add_all ps ([], []))). source e \<noteq> target e \<and> source e < n \<and> target e < n"
  proof
    fix e assume m: "e \<in> set (fst (add_all ps ([], [])))"
    have "source e \<noteq> target e" using inv m by (simp add: dedup_inv_def)
    moreover have "(source e, target e) \<in> set ps"
      using A[THEN conjunct2, THEN conjunct2] m by simp
    ultimately show "source e \<noteq> target e \<and> source e < n \<and> target e < n" using ps by force
  qed
  have d: "distinct (map upair (fst (add_all ps ([], []))))" using inv by (simp add: dedup_inv_def)
  have w: "well_formed \<lparr>nodes = ns, edges = fst (add_all ps ([], []))\<rparr>"
    unfolding well_formed_def using ids ln e d by simp
  have u: "upair ` set (fst (add_all ps ([], []))) = {{u, v} |u v. (u, v) \<in> set ps \<and> u \<noteq> v}"
    using A[THEN conjunct2, THEN conjunct1] by simp
  show ?thesis using w u by simp
qed

lemma well_formed_empty: "well_formed \<lparr>nodes = [], edges = []\<rparr>"
  by (simp add: well_formed_def)

subsection \<open>Ring\<close>

lemma ring_base_fold:
  "foldl (ring_base_step n) st is = add_all (map (\<lambda>i. (i, (i + 1) mod n)) is) st"
  by (induction "is" arbitrary: st) (simp_all add: add_all_Nil add_all_Cons ring_base_step_def)

lemma ring_skip_fold:
  "foldl (ring_skip_step n s) st is = add_all (map (\<lambda>i. (i, (i + s) mod n)) is) st"
  by (induction "is" arbitrary: st) (simp_all add: add_all_Nil add_all_Cons ring_skip_step_def)

lemma ring_node_ids: "map node_id (map ring_node [0..<n]) = [0..<n]"
  by (simp add: ring_node_def comp_def)

lemma generateRing_pairs:
  assumes "2 \<le> n"
  shows "snd (generateRing n skip)
     = \<lparr>nodes = map ring_node [0..<nat n],
        edges = fst (add_all (ring_pairs (nat n) (nat (max 1 (min skip (max 1 (n div 2)))))) ([], []))\<rparr>"
proof -
  define s where "s = max 1 (min skip (max 1 (n div 2)))"
  have c: "(1 < s \<and> 3 \<le> n) = (1 < nat s \<and> 3 \<le> nat n)" by auto
  show ?thesis
    using assms unfolding generateRing_def Let_def s_def[symmetric] ring_pairs_def
      ring_base_fold ring_skip_fold
    by (simp add: add_all_append add_all_Nil c)
qed

lemma ring_well_formed: "well_formed (snd (generateRing n skip))"
proof -
  consider "n < 1" | "n = 1" | "2 \<le> n" by linarith
  then show ?thesis
  proof cases
    case 1
    then show ?thesis by (simp add: generateRing_def well_formed_empty)
  next
    case 2
    then show ?thesis by (simp add: generateRing_def Let_def well_formed_def ring_node_def)
  next
    case 3
    define N where "N = nat n"
    have N: "0 < N" using 3 by (simp add: N_def)
    have ps: "\<forall>p\<in>set (ring_pairs N (nat (max 1 (min skip (max 1 (n div 2)))))). fst p < N \<and> snd p < N"
      using N by (auto simp: ring_pairs_def)
    show ?thesis
      unfolding generateRing_pairs[OF 3] N_def[symmetric]
      using add_all_graph[OF ps ring_node_ids] by simp
  qed
qed

subsection \<open>Torus\<close>

lemma torus_step_pairs: "torus_step R C r st c = add_all (torus_cell_pairs R C r c) st"
  by (simp add: torus_step_def torus_cell_pairs_def Let_def add_all_Nil add_all_Cons)

lemma torus_row_pairs:
  "torus_row R C st r = add_all (concat (map (torus_cell_pairs R C r) [0..<C])) st"
proof -
  have "torus_step R C r = (\<lambda>st c. add_all (torus_cell_pairs R C r c) st)"
    by (intro ext) (rule torus_step_pairs)
  then show ?thesis unfolding torus_row_def by (simp add: add_all_fold_concat)
qed

lemma torus_fold_pairs:
  "foldl (torus_row R C) st rs
     = add_all (concat (map (\<lambda>r. concat (map (torus_cell_pairs R C r) [0..<C])) rs)) st"
proof -
  have "torus_row R C = (\<lambda>st r. add_all (concat (map (torus_cell_pairs R C r) [0..<C])) st)"
    by (intro ext) (rule torus_row_pairs)
  then show ?thesis by (simp add: add_all_fold_concat)
qed

lemma nodeAt_less:
  assumes "0 < R" and "0 < C"
  shows "nodeAt R C r c < R * C"
proof -
  have a: "(r + R) mod R < R" and b: "(c + C) mod C < C" using assms by simp_all
  have "(r + R) mod R * C + (c + C) mod C < (r + R) mod R * C + C" using b by simp
  also have "\<dots> = Suc ((r + R) mod R) * C" by simp
  also have "\<dots> \<le> R * C" using a by (intro mult_le_mono1) simp
  finally show ?thesis by (simp add: nodeAt_def)
qed

lemma grid_ids:
  "concat (map (\<lambda>r. map (\<lambda>c. r * C + c) [0..<C]) [0..<R]) = [0..<R * C]"
proof (induction R)
  case 0 show ?case by simp
next
  case (Suc R)
  have "map (\<lambda>c. R * C + c) [0..<C] = map (\<lambda>c. c + R * C) [0..<C]"
    by (simp add: add.commute)
  also have "\<dots> = [R * C..<C + R * C]" by (rule map_add_upt)
  finally have row: "map (\<lambda>c. R * C + c) [0..<C] = [R * C..<R * C + C]"
    by (simp add: add.commute)
  have "[0..<Suc R * C] = [0..<R * C] @ [R * C..<R * C + C]"
    using upt_add_eq_append[of 0 "R * C" C] by (simp add: add.commute)
  then show ?case using Suc row by simp
qed

lemma torus_node_ids:
  "map node_id (concat (map (torus_node_row C) [0..<R])) = [0..<R * C]"
proof -
  have "map node_id (concat (map (torus_node_row C) [0..<R]))
      = concat (map (\<lambda>r. map (\<lambda>c. r * C + c) [0..<C]) [0..<R])"
    by (simp add: map_concat torus_node_row_def grid_node_def comp_def)
  then show ?thesis by (simp add: grid_ids)
qed

lemma torus_well_formed: "well_formed (generateTorus rows cols)"
proof (cases "rows < 1 \<or> cols < 1")
  case True
  then show ?thesis by (simp add: generateTorus_def well_formed_empty)
next
  case False
  define R where "R = nat rows"
  define C where "C = nat cols"
  have RC: "0 < R" "0 < C" using False by (simp_all add: R_def C_def)
  define ps where "ps = concat (map (\<lambda>r. concat (map (torus_cell_pairs R C r) [0..<C])) [0..<R])"
  have ps: "\<forall>p\<in>set ps. fst p < R * C \<and> snd p < R * C"
    using nodeAt_less[OF RC] by (auto simp: ps_def torus_cell_pairs_def split: if_splits)
  have g: "generateTorus rows cols
      = \<lparr>nodes = concat (map (torus_node_row C) [0..<R]), edges = fst (add_all ps ([], []))\<rparr>"
    using False by (simp add: generateTorus_def R_def C_def ps_def torus_fold_pairs)
  show ?thesis unfolding g using add_all_graph[OF ps torus_node_ids] by simp
qed

lemma xor_pow_neq: "xor (i::nat) (2 ^ j) \<noteq> i"
proof
  assume "xor i (2 ^ j) = i"
  then have "bit (xor i (2 ^ j)) j = bit i j" by simp
  then show False by (simp add: bit_xor_iff bit_exp_iff)
qed

lemma xor_pow_less:
  assumes "(i::nat) < 2 ^ d" and "j < d"
  shows "xor i (2 ^ j) < 2 ^ d"
proof -
  have a: "take_bit d i = i" using assms(1) by (rule take_bit_nat_eq_self)
  have "(2::nat) ^ j < 2 ^ d" using assms(2) by simp
  then have b: "take_bit d ((2::nat) ^ j) = 2 ^ j" by (rule take_bit_nat_eq_self)
  have "take_bit d (xor i (2 ^ j)) = xor (take_bit d i) (take_bit d (2 ^ j))"
    by (rule take_bit_xor)
  then have "take_bit d (xor i (2 ^ j)) = xor i (2 ^ j)" unfolding a b .
  then show ?thesis by (metis take_bit_nat_less_exp)
qed

lemma hypercube_edge_addEdge: "hypercube_edge i st j = addEdge i (xor i (2 ^ j)) st"
proof -
  have "min i (xor i (2 ^ j)) \<noteq> max i (xor i (2 ^ j))"
    using xor_pow_neq[of i j] by (auto simp: min_def max_def)
  then show ?thesis by (simp add: hypercube_edge_def addEdge_def Let_def)
qed

lemma hypercube_row_pairs:
  "hypercube_row d st i = add_all (map (\<lambda>j. (i, xor i (2 ^ j))) [0..<d]) st"
proof -
  have "foldl (hypercube_edge i) st js = add_all (map (\<lambda>j. (i, xor i (2 ^ j))) js) st" for js
    by (induction js arbitrary: st) (simp_all add: add_all_Nil add_all_Cons hypercube_edge_addEdge)
  then show ?thesis by (simp add: hypercube_row_def)
qed

lemma hypercube_fold_pairs:
  "foldl (hypercube_row d) st is
     = add_all (concat (map (\<lambda>i. map (\<lambda>j. (i, xor i (2 ^ j))) [0..<d]) is)) st"
proof -
  have "hypercube_row d = (\<lambda>st i. add_all (map (\<lambda>j. (i, xor i (2 ^ j))) [0..<d]) st)"
    by (intro ext) (rule hypercube_row_pairs)
  then show ?thesis by (simp add: add_all_fold_concat)
qed

lemma cube_pairs_0: "cube_pairs 0 = []"
  by (simp add: cube_pairs_def)

lemma generateHypercube_pairs:
  "snd (generateHypercube d)
     = \<lparr>nodes = map (hypercube_node (nat (max 0 (min d 10)))) [0..<2 ^ nat (max 0 (min d 10))],
        edges = fst (add_all (cube_pairs (nat (max 0 (min d 10)))) ([], []))\<rparr>"
proof -
  consider "d \<le> 0" | "0 < d" "d \<le> 10" | "10 < d" by linarith
  then show ?thesis
  proof cases
    case 1
    then have c: "nat (max 0 (min d 10)) = 0" by simp
    show ?thesis unfolding c cube_pairs_0 add_all_Nil using 1
      by (simp add: generateHypercube_def Let_def)
  next
    case 2
    then have c: "max 0 (min d 10) = d" by simp
    show ?thesis unfolding c using 2
      by (simp add: generateHypercube_def Let_def hypercube_fold_pairs cube_pairs_def)
  next
    case 3
    then have c: "nat (max 0 (min d 10)) = 10" by simp
    show ?thesis unfolding c using 3
      by (simp add: generateHypercube_def Let_def hypercube_fold_pairs cube_pairs_def)
  qed
qed

lemma cube_node_ids: "map node_id (map (hypercube_node d) [0..<n]) = [0..<n]"
  by (simp add: hypercube_node_def cube_node_def comp_def)

lemma cube_pairs_range: "\<forall>p\<in>set (cube_pairs d). fst p < 2 ^ d \<and> snd p < 2 ^ d"
proof
  fix p assume "p \<in> set (cube_pairs d)"
  then obtain i j where "p = (i, xor i (2 ^ j))" "i < 2 ^ d" "j < d"
    unfolding cube_pairs_def by auto
  then show "fst p < 2 ^ d \<and> snd p < 2 ^ d" using xor_pow_less[of i d j] by simp
qed

lemma hypercube_well_formed: "well_formed (snd (generateHypercube d))"
  unfolding generateHypercube_pairs
  using add_all_graph[OF cube_pairs_range cube_node_ids] by simp

lemma set_cube_pairs:
  "set (cube_pairs d) = {(i, xor i (2 ^ j)) |i j. i < 2 ^ d \<and> j < d}"
  by (auto simp: cube_pairs_def)

lemma hypercube_edge_set:
  "upair ` set (edges (snd (generateHypercube d)))
     = {{i, xor i (2 ^ j)} |i j. i < 2 ^ nat (max 0 (min d 10)) \<and> j < nat (max 0 (min d 10))}"
proof -
  define D where "D = nat (max 0 (min d 10))"
  have "{{u, v} |u v. (u, v) \<in> set (cube_pairs D) \<and> u \<noteq> v} = {{i, xor i (2 ^ j)} |i j. i < 2 ^ D \<and> j < D}"
  proof (intro set_eqI iffI)
    fix X assume "X \<in> {{u, v} |u v. (u, v) \<in> set (cube_pairs D) \<and> u \<noteq> v}"
    then obtain u v where "X = {u, v}" "(u, v) \<in> set (cube_pairs D)" by blast
    then obtain i j :: nat where "X = {i, xor i (2 ^ j)}" "i < 2 ^ D" "j < D"
      unfolding set_cube_pairs by blast
    then show "X \<in> {{i, xor i (2 ^ j)} |i j. i < 2 ^ D \<and> j < D}" by blast
  next
    fix X :: "nat set" assume "X \<in> {{i, xor i (2 ^ j)} |i j. i < 2 ^ D \<and> j < D}"
    then obtain i j :: nat where x: "X = {i, xor i (2 ^ j)}" "i < 2 ^ D" "j < D" by blast
    then have "(i, xor i (2 ^ j)) \<in> set (cube_pairs D)" unfolding set_cube_pairs by blast
    moreover have "i \<noteq> xor i (2 ^ j)" using xor_pow_neq[of i j] by simp
    ultimately show "X \<in> {{u, v} |u v. (u, v) \<in> set (cube_pairs D) \<and> u \<noteq> v}"
      using x(1) by blast
  qed
  then show ?thesis
    unfolding generateHypercube_pairs D_def[symmetric]
    using add_all_graph[OF cube_pairs_range cube_node_ids, of D] by simp
qed

subsection \<open>Binary strings\<close>

lemma digit_char_0: "digit_char 0 = CHR ''0''"
  by code_simp

lemma digit_char_1: "digit_char 1 = CHR ''1''"
  by code_simp

lemma digit_char_bit: "digit_char (i mod 2) = (if odd i then CHR ''1'' else CHR ''0'')"
proof (cases "odd i")
  case True
  then have "i mod 2 = 1" by (simp add: odd_iff_mod_2_eq_one)
  then show ?thesis using True digit_char_1 by simp
next
  case False
  then have "i mod 2 = 0" by simp
  then show ?thesis using False digit_char_0 by simp
qed

lemma binary_digits_Suc:
  "binary_digits (Suc d) i = binary_digits d (i div 2) @ [if odd i then CHR ''1'' else CHR ''0'']"
proof -
  have "\<And>k. k < d \<Longrightarrow> bit i (Suc d - 1 - k) = bit (i div 2) (d - 1 - k)"
  proof -
    fix k assume "k < d"
    then have "Suc d - 1 - k = Suc (d - 1 - k)" by simp
    then show "bit i (Suc d - 1 - k) = bit (i div 2) (d - 1 - k)" by (simp add: bit_Suc)
  qed
  then have "map (\<lambda>k. if bit i (Suc d - 1 - k) then CHR ''1'' else CHR ''0'') [0..<d]
      = map (\<lambda>k. if bit (i div 2) (d - 1 - k) then CHR ''1'' else CHR ''0'') [0..<d]"
    by (intro map_cong) simp_all
  then show ?thesis by (simp add: binary_digits_def bit_0)
qed

lemma padStart_snoc:
  "padStart (Suc d) c (xs @ [x]) = padStart d c xs @ [x]"
  by (simp add: padStart_def)

lemma binary_digits_small:
  assumes "i < 2"
  shows "binary_digits (Suc d) i = replicate d (CHR ''0'') @ [digit_char i]"
proof (induction d)
  case 0
  have "i = 0 \<or> i = 1" using assms by auto
  then show ?case using digit_char_0 digit_char_1 by (auto simp: binary_digits_def bit_0)
next
  case (Suc d)
  have z: "i div 2 = 0" using assms by simp
  have "binary_digits (Suc d) 0 = replicate d (CHR ''0'') @ [CHR ''0'']"
    by (simp add: binary_digits_def map_replicate_const replicate_append_same)
  then have "binary_digits (Suc (Suc d)) i = (replicate d (CHR ''0'') @ [CHR ''0'']) @ [if odd i then CHR ''1'' else CHR ''0'']"
    unfolding binary_digits_Suc[of "Suc d" i] z by simp
  moreover have "digit_char i = (if odd i then CHR ''1'' else CHR ''0'')"
    using digit_char_bit[of i] assms by simp
  ultimately show ?case by (simp add: replicate_append_same)
qed

lemma padStart_toString2:
  "i < 2 ^ Suc d \<Longrightarrow> padStart (Suc d) (CHR ''0'') (toString2 i) = binary_digits (Suc d) i"
proof (induction i arbitrary: d rule: toString2.induct)
  case (1 i)
  show ?case
  proof (cases "i < 2")
    case True
    have e: "toString2 i = [digit_char i]" using True by (subst toString2.simps) simp
    show ?thesis unfolding e binary_digits_small[OF True] by (simp add: padStart_def)
  next
    case False
    have e: "toString2 i = toString2 (i div 2) @ [digit_char (i mod 2)]"
      using False by (subst toString2.simps) simp
    obtain d' where d': "d = Suc d'"
      using False "1.prems" by (cases d) auto
    have "i div 2 < 2 ^ Suc d'" using "1.prems" d' by auto
    from "1.IH"[OF False this]
    have "padStart (Suc d') (CHR ''0'') (toString2 (i div 2)) = binary_digits (Suc d') (i div 2)" .
    then show ?thesis
      unfolding e d' padStart_snoc binary_digits_Suc[of "Suc d'" i] digit_char_bit by simp
  qed
qed

lemma toString2_zero: "toString2 0 = ''0''"
  by (subst toString2.simps) (simp add: digit_char_0)

lemma hypercube_binary:
  assumes "1 \<le> d" and "i < 2 ^ d"
  shows "binary (hypercube_node d i) = Some (binary_digits d i)"
proof -
  obtain d' where "d = Suc d'" using assms(1) by (cases d) auto
  then show ?thesis
    using padStart_toString2[of i d'] assms(2) by (simp add: hypercube_node_def cube_node_def)
qed

lemma mesh_invD:
  assumes "mesh_inv C r c st"
  shows "idCounter st = r * C + c"
    and "map node_id (mesh_nodes st) = [0..<r * C + c]"
    and "\<And>r' c'. c' < C \<Longrightarrow> r' < r \<or> (r' = r \<and> c' < c)
          \<Longrightarrow> grid_read (nodeGrid st) r' c' = Some (r' * C + c')"
    and "\<And>e. e \<in> set (mesh_edges st) \<Longrightarrow> target e < source e \<and> source e < r * C + c"
    and "distinct (map upair (mesh_edges st))"
proof -
  note I = assms[unfolded mesh_inv_def]
  show "idCounter st = r * C + c" using I[THEN conjunct1] .
  show "map node_id (mesh_nodes st) = [0..<r * C + c]" using I[THEN conjunct2, THEN conjunct1] .
  show "\<And>r' c'. c' < C \<Longrightarrow> r' < r \<or> (r' = r \<and> c' < c)
          \<Longrightarrow> grid_read (nodeGrid st) r' c' = Some (r' * C + c')"
    using I[THEN conjunct2, THEN conjunct2, THEN conjunct1] by blast
  show "\<And>e. e \<in> set (mesh_edges st) \<Longrightarrow> target e < source e \<and> source e < r * C + c"
    using I[THEN conjunct2, THEN conjunct2, THEN conjunct2, THEN conjunct1] by blast
  show "distinct (map upair (mesh_edges st))"
    using I[THEN conjunct2, THEN conjunct2, THEN conjunct2, THEN conjunct2] .
qed

lemma upair_new_source:
  assumes "\<forall>e\<in>set es. target e < source e \<and> source e < n"
  shows "{n, t} \<notin> upair ` set es"
proof
  assume "{n, t} \<in> upair ` set es"
  then obtain e where e: "e \<in> set es" "{n, t} = {source e, target e}" by (auto simp: upair_def)
  then have "n = source e \<or> n = target e" by (auto simp: doubleton_eq_iff)
  then show False using assms e(1) by force
qed

lemma mesh_cell_step:
  assumes inv: "mesh_inv C r c st" and c: "c < C" and row: "nodeGrid st r = Some cells"
  shows "\<exists>st'. mesh_cell r (Some st) c = Some st' \<and> mesh_inv C r (Suc c) st' \<and> nodeGrid st' r \<noteq> None"
proof -
  note I = mesh_invD[OF inv]
  define n where "n = r * C + c"
  define st1 where "st1 = st\<lparr>idCounter := n + 1,
      mesh_nodes := mesh_nodes st @ [grid_node n r c],
      nodeGrid := (nodeGrid st)(r \<mapsto> cells(c \<mapsto> n))\<rparr>"
  define left where "left = (if c > 0 then [\<lparr>source = n, target = n - 1\<rparr>] else [])"
  define up where "up = (if r > 0 then [\<lparr>source = n, target = n - C\<rparr>] else [])"
  define st3 where "st3 = st1\<lparr>mesh_edges := mesh_edges st @ left @ up\<rparr>"
  have g1: "\<And>r' c'. grid_read (nodeGrid st1) r' c'
       = (if r' = r \<and> c' = c then Some n else grid_read (nodeGrid st) r' c')"
    using row by (auto simp: st1_def grid_read_def)
  have gl: "c > 0 \<Longrightarrow> grid_read (nodeGrid st1) r (c - 1) = Some (n - 1)"
  proof -
    assume c0: "c > 0"
    have "grid_read (nodeGrid st) r (c - 1) = Some (r * C + (c - 1))"
      using I(3)[of "c - 1" r] c c0 by simp
    moreover have "c - 1 \<noteq> c" using c0 by simp
    moreover have "r * C + (c - 1) = n - 1" using c0 by (simp add: n_def)
    ultimately show ?thesis unfolding g1 by simp
  qed
  have gu: "r > 0 \<Longrightarrow> grid_read (nodeGrid st1) (r - 1) c = Some (n - C)"
  proof -
    assume r0: "r > 0"
    have "grid_read (nodeGrid st) (r - 1) c = Some ((r - 1) * C + c)"
      using I(3)[of c "r - 1"] c r0 by simp
    moreover have "(r - 1) * C + c = n - C" using r0 by (simp add: n_def diff_mult_distrib)
    moreover have "r - 1 \<noteq> r" using r0 by simp
    ultimately show ?thesis unfolding g1 by simp
  qed
  have run: "mesh_cell r (Some st) c = Some st3"
    using row I(1) gl gu
    by (auto simp: mesh_cell_def Let_def st1_def[symmetric, unfolded n_def] n_def[symmetric]
          st3_def left_def up_def st1_def)
  have J1: "idCounter st3 = r * C + Suc c" by (simp add: st3_def st1_def n_def)
  have J2: "map node_id (mesh_nodes st3) = [0..<r * C + Suc c]"
    using I(2) by (simp add: st3_def st1_def n_def grid_node_def)
  have J3: "\<forall>r' c'. c' < C \<and> (r' < r \<or> (r' = r \<and> c' < Suc c))
         \<longrightarrow> grid_read (nodeGrid st3) r' c' = Some (r' * C + c')"
  proof (intro allI impI)
    fix r' c' assume a: "c' < C \<and> (r' < r \<or> (r' = r \<and> c' < Suc c))"
    have e: "grid_read (nodeGrid st3) r' c' = grid_read (nodeGrid st1) r' c'" by (simp add: st3_def)
    show "grid_read (nodeGrid st3) r' c' = Some (r' * C + c')"
    proof (cases "r' = r \<and> c' = c")
      case True then show ?thesis unfolding e g1 by (simp add: n_def)
    next
      case False
      then have "r' < r \<or> (r' = r \<and> c' < c)" using a by auto
      then have "grid_read (nodeGrid st) r' c' = Some (r' * C + c')" using I(3) a by blast
      then show ?thesis unfolding e g1 using False by auto
    qed
  qed
  have nC: "r > 0 \<Longrightarrow> C \<le> n" by (cases r) (simp_all add: n_def)
  have Cpos: "0 < C" using c by simp
  have new: "\<forall>e\<in>set (left @ up). source e = n \<and> target e < n"
    using Cpos nC by (auto simp: left_def up_def n_def)
  have J4: "\<forall>e\<in>set (mesh_edges st3). target e < source e \<and> source e < r * C + Suc c"
  proof
    fix e assume "e \<in> set (mesh_edges st3)"
    then have "e \<in> set (mesh_edges st) \<or> e \<in> set (left @ up)" by (auto simp: st3_def)
    then show "target e < source e \<and> source e < r * C + Suc c"
      using I(4)[of e] new by (auto simp: n_def)
  qed
  have old: "\<forall>e\<in>set (mesh_edges st). target e < source e \<and> source e < n"
    using I(4) by (simp add: n_def)
  have dlu: "distinct (map upair (left @ up))"
  proof (cases "c > 0 \<and> r > 0")
    case True
    then have "2 \<le> C" using c by simp
    then have "n - 1 \<noteq> n - C" using True nC by (simp add: n_def)
    moreover have "n - 1 \<noteq> n" "n - C \<noteq> n" using True nC Cpos by (simp_all add: n_def)
    ultimately have "{n, n - 1} \<noteq> {n, n - C}" by (auto simp: doubleton_eq_iff)
    then show ?thesis using True by (simp add: left_def up_def upair_def)
  next
    case False
    then show ?thesis by (auto simp: left_def up_def)
  qed
  have disj: "upair ` set (mesh_edges st) \<inter> upair ` set (left @ up) = {}"
  proof -
    have "\<And>e. e \<in> set (left @ up) \<Longrightarrow> upair e \<notin> upair ` set (mesh_edges st)"
    proof -
      fix e assume "e \<in> set (left @ up)"
      then have "upair e = {n, target e}" using new by (auto simp: upair_def)
      then show "upair e \<notin> upair ` set (mesh_edges st)" using upair_new_source[OF old] by simp
    qed
    then show ?thesis by blast
  qed
  define lu where "lu = left @ up"
  have e3: "mesh_edges st3 = mesh_edges st @ lu" by (simp add: st3_def lu_def)
  have dlu': "distinct (map upair lu)" using dlu by (simp only: lu_def)
  have disj': "upair ` set (mesh_edges st) \<inter> upair ` set lu = {}" using disj by (simp only: lu_def)
  have J5: "distinct (map upair (mesh_edges st3))"
    unfolding e3 using I(5) dlu' disj' by simp
  have inv': "mesh_inv C r (Suc c) st3"
    unfolding mesh_inv_def using J1 J2 J3 J4 J5 by (intro conjI)
  have "nodeGrid st3 r \<noteq> None" by (simp add: st3_def st1_def)
  then show ?thesis using run inv' by blast
qed

lemma mesh_cells:
  assumes inv: "mesh_inv C r 0 st" and row: "nodeGrid st r \<noteq> None"
  shows "k \<le> C \<Longrightarrow> \<exists>st'. foldl (mesh_cell r) (Some st) [0..<k] = Some st'
            \<and> mesh_inv C r k st' \<and> nodeGrid st' r \<noteq> None"
proof (induction k)
  case 0
  show ?case using inv row by simp
next
  case (Suc k)
  then obtain st1 where s: "foldl (mesh_cell r) (Some st) [0..<k] = Some st1"
    "mesh_inv C r k st1" "nodeGrid st1 r \<noteq> None" by auto
  obtain cells where cells: "nodeGrid st1 r = Some cells" using s(3) by auto
  have "k < C" using Suc.prems by simp
  from mesh_cell_step[OF s(2) this cells] obtain st' where
    "mesh_cell r (Some st1) k = Some st'" "mesh_inv C r (Suc k) st'" "nodeGrid st' r \<noteq> None"
    by blast
  then show ?case using s(1) by simp
qed

lemma mesh_inv_next_row: "mesh_inv C r C st \<Longrightarrow> mesh_inv C (Suc r) 0 st"
  unfolding mesh_inv_def
  by (auto simp: less_Suc_eq add.commute)

lemma mesh_new_row_inv:
  assumes "mesh_inv C r 0 st"
  shows "mesh_inv C r 0 (mesh_new_row r st) \<and> nodeGrid (mesh_new_row r st) r \<noteq> None"
proof -
  have "\<And>r' c'. r' < r \<Longrightarrow> grid_read (nodeGrid (mesh_new_row r st)) r' c' = grid_read (nodeGrid st) r' c'"
    by (simp add: mesh_new_row_def grid_read_def)
  then show ?thesis
    using assms unfolding mesh_inv_def by (simp add: mesh_new_row_def)
qed

lemma mesh_rows:
  "k \<le> R \<Longrightarrow> \<exists>st'. foldl (mesh_row C) (Some mesh_start) [0..<k] = Some st' \<and> mesh_inv C k 0 st'"
proof (induction k)
  case 0
  show ?case by (simp add: mesh_inv_def mesh_start_def)
next
  case (Suc k)
  then obtain st1 where s: "foldl (mesh_row C) (Some mesh_start) [0..<k] = Some st1"
    "mesh_inv C k 0 st1" by auto
  note N = mesh_new_row_inv[OF s(2)]
  from mesh_cells[OF N[THEN conjunct1] N[THEN conjunct2], of C] obtain st' where
    t: "foldl (mesh_cell k) (Some (mesh_new_row k st1)) [0..<C] = Some st'" "mesh_inv C k C st'"
    by auto
  have "mesh_row C (Some st1) k = Some st'" using t(1) by (simp add: mesh_row_def)
  then show ?case using s(1) mesh_inv_next_row[OF t(2)] by simp
qed

lemma mesh_well_formed: "\<exists>g. generateMesh rows cols = Some g \<and> well_formed g"
proof (cases "rows < 1 \<or> cols < 1")
  case True
  then show ?thesis by (simp add: generateMesh_def well_formed_def)
next
  case False
  from mesh_rows[of "nat rows" "nat rows" "nat cols"] obtain st where
    s: "foldl (mesh_row (nat cols)) (Some mesh_start) [0..<nat rows] = Some st"
       "mesh_inv (nat cols) (nat rows) 0 st" by auto
  note I = mesh_invD[OF s(2)]
  have g: "generateMesh rows cols = Some \<lparr>nodes = mesh_nodes st, edges = mesh_edges st\<rparr>"
    using False s(1) by (simp add: generateMesh_def)
  have l: "length (mesh_nodes st) = nat rows * nat cols"
    using arg_cong[OF I(2), of length] by simp
  have "well_formed \<lparr>nodes = mesh_nodes st, edges = mesh_edges st\<rparr>"
    unfolding well_formed_def using I(2) I(4) I(5) l by force
  then show ?thesis using g by simp
qed

section \<open>Invariants of the generators\<close>

text \<open>
  Claim C5. For each of the four generators and all parameter values, the graph returned is
  well formed: the node ids are \<open>0, ..., n - 1\<close> in order, where \<open>n\<close> is the number of nodes
  returned (so there are no gaps and no duplicates); every edge has two different ends, both
  of them ids below \<open>n\<close>; and no unordered pair of ends occurs twice in the edge list. The
  mesh generator never reads a grid entry that was not written.
\<close>

theorem generators_well_formed:
  "well_formed (snd (generateRing n skip))
   \<and> (\<exists>g. generateMesh rows cols = Some g \<and> well_formed g)
   \<and> well_formed (generateTorus rows cols)
   \<and> well_formed (snd (generateHypercube d))"
  using ring_well_formed[of n skip] mesh_well_formed[of rows cols]
    torus_well_formed[of rows cols] hypercube_well_formed[of d]
  by (intro conjI)

lemma ring_12_6_edges:
  "edges (snd (generateRing 12 6))
     = map (\<lambda>i. \<lparr>source = i, target = (i + 1) mod 12\<rparr>) [0..<12]
       @ map (\<lambda>i. \<lparr>source = i, target = i + 6\<rparr>) [0..<6]"
  by code_simp

lemma ring_12_6_length: "length (nodes (snd (generateRing 12 6))) = 12"
  by code_simp

theorem generators_well_formed_witness:
  "\<lparr>source = 0, target = 6\<rparr> \<in> set (edges (snd (generateRing 12 6)))
   \<and> source \<lparr>source = 0, target = 6\<rparr> \<noteq> target \<lparr>source = 0, target = 6 :: nat\<rparr>
   \<and> target \<lparr>source = 0, target = 6\<rparr> < length (nodes (snd (generateRing 12 6)))
   \<and> map node_id (nodes (snd (generateRing 12 6))) = [0..<12]"
proof -
  have m: "\<lparr>source = 0, target = 6\<rparr> \<in> set (edges (snd (generateRing 12 6)))"
    unfolding ring_12_6_edges by simp
  have w: "well_formed (snd (generateRing 12 6))"
    using generators_well_formed[of 12 6 4 5 3] by (rule conjunct1)
  have "\<forall>e\<in>set (edges (snd (generateRing 12 6))). source e \<noteq> target e
          \<and> source e < length (nodes (snd (generateRing 12 6)))
          \<and> target e < length (nodes (snd (generateRing 12 6)))"
    using w unfolding well_formed_def by (elim conjE)
  then have "source \<lparr>source = 0, target = 6\<rparr> \<noteq> target \<lparr>source = 0, target = 6 :: nat\<rparr>
      \<and> target \<lparr>source = 0, target = 6\<rparr> < length (nodes (snd (generateRing 12 6)))"
    using m by blast
  moreover have "map node_id (nodes (snd (generateRing 12 6))) = [0..<12]"
    using w unfolding well_formed_def ring_12_6_length by (elim conjE)
  ultimately show ?thesis using m by blast
qed

section \<open>The hypercube\<close>

text \<open>
  What holds of \<open>generateHypercube\<close> for every \<open>d\<close>, with \<open>D\<close> the dimension clamped into
  \<open>[0, 10]\<close>: the graph is that of the clamped dimension; there are \<open>2 ^ D\<close> nodes with the ids
  \<open>0, ..., 2 ^ D - 1\<close>; the edges are exactly the unordered pairs \<open>{i, i XOR 2 ^ j}\<close> with
  \<open>i < 2 ^ D\<close> and \<open>j < D\<close>, each once; and for \<open>D \<ge> 1\<close> the \<open>binary\<close> field of node \<open>i\<close> is the
  string of its \<open>D\<close> bits, the most significant first.
\<close>

lemma hypercube_structure:
  "snd (generateHypercube d) = snd (generateHypercube (int (nat (max 0 (min d 10)))))
   \<and> map node_id (nodes (snd (generateHypercube d))) = [0..<2 ^ nat (max 0 (min d 10))]
   \<and> length (nodes (snd (generateHypercube d))) = 2 ^ nat (max 0 (min d 10))
   \<and> upair ` set (edges (snd (generateHypercube d)))
       = {{i, xor i (2 ^ j)} |i j. i < 2 ^ nat (max 0 (min d 10)) \<and> j < nat (max 0 (min d 10))}
   \<and> distinct (map upair (edges (snd (generateHypercube d))))
   \<and> (1 \<le> nat (max 0 (min d 10)) \<longrightarrow>
        (\<forall>i<2 ^ nat (max 0 (min d 10)).
           binary (nodes (snd (generateHypercube d)) ! i) = Some (binary_digits (nat (max 0 (min d 10))) i)))"
proof -
  define D where "D = nat (max 0 (min d 10))"
  have c: "nat (max 0 (min (int D) 10)) = D" by (auto simp: D_def)
  have 1: "snd (generateHypercube d) = snd (generateHypercube (int D))"
    unfolding generateHypercube_pairs c D_def[symmetric] ..
  note w = hypercube_well_formed[of d, unfolded well_formed_def]
  have n: "nodes (snd (generateHypercube d)) = map (hypercube_node D) [0..<2 ^ D]"
    unfolding generateHypercube_pairs D_def[symmetric] by simp
  have 2: "map node_id (nodes (snd (generateHypercube d))) = [0..<2 ^ D]"
    unfolding n by (rule cube_node_ids)
  have 3: "length (nodes (snd (generateHypercube d))) = 2 ^ D"
    unfolding n by simp
  have 4: "upair ` set (edges (snd (generateHypercube d))) = {{i, xor i (2 ^ j)} |i j. i < 2 ^ D \<and> j < D}"
    unfolding D_def by (rule hypercube_edge_set)
  have 5: "distinct (map upair (edges (snd (generateHypercube d))))"
    using w by (elim conjE)
  have 6: "1 \<le> D \<longrightarrow> (\<forall>i<2 ^ D. binary (nodes (snd (generateHypercube d)) ! i) = Some (binary_digits D i))"
  proof (intro impI allI)
    fix i :: nat assume d1: "1 \<le> D" and i: "i < 2 ^ D"
    have "nodes (snd (generateHypercube d)) ! i = hypercube_node D i" unfolding n using i by simp
    then show "binary (nodes (snd (generateHypercube d)) ! i) = Some (binary_digits D i)"
      using hypercube_binary[OF d1 i] by simp
  qed
  show ?thesis unfolding D_def[symmetric] using 1 2 3 4 5 6 by (intro conjI)
qed

text \<open>
  Claim C6 says that for every \<open>d\<close> the \<open>binary\<close> field of each node is the zero-padded string
  of exactly \<open>d'\<close> bits of its id, \<open>d'\<close> being the clamped dimension, and that
  \<open>generateHypercube(3)\<close> has 8 nodes, 12 edges and binary strings of length 3, and
  \<open>generateHypercube(0)\<close> a single node and no edges. The two instances hold. At \<open>d = 0\<close>
  the single node has the \<open>binary\<close> string \<open>"0"\<close>, of length 1 and not 0: \<open>(0).toString(2)\<close>
  is \<open>"0"\<close>, and \<open>padStart(0, '0')\<close> leaves it as it is.
\<close>

theorem hypercube_zero_binary:
  "snd (generateHypercube 0) = \<lparr>nodes = [cube_node 0 ''0''], edges = []\<rparr>
   \<and> binary (nodes (snd (generateHypercube 0)) ! 0) = Some ''0''
   \<and> binary_digits (nat (max 0 (min 0 10))) 0 = ''''
   \<and> binary (nodes (snd (generateHypercube 0)) ! 0) \<noteq> Some (binary_digits (nat (max 0 (min 0 10))) 0)
   \<and> (let g = snd (generateHypercube 3)
      in length (nodes g) = 8 \<and> length (edges g) = 12
       \<and> map binary (nodes g)
           = map Some [''000'', ''001'', ''010'', ''011'', ''100'', ''101'', ''110'', ''111''])"
  by code_simp

end
